theory Spec2Isabelle
  imports
    Complex_Main
    "HOL-Library.Char_ord"
    "HOL-Library.List_Lexorder"
    "HOL-Library.FSet"
begin

section \<open>Strings\<close>

text \<open>
  Python strings are modelled as \<open>string\<close> (lists of 8-bit characters, read as the code
  points U+0000 to U+00FF). The order on strings is the lexicographic order on code
  points, which is how Python compares \<open>str\<close> values.
\<close>

definition lstrip :: "string \<Rightarrow> string \<Rightarrow> string" where
  \<comment> \<open>\<open>s.lstrip(chars)\<close>\<close>
  "lstrip chars s = dropWhile (\<lambda>c. c \<in> set chars) s"

definition rstrip :: "string \<Rightarrow> string \<Rightarrow> string" where
  \<comment> \<open>\<open>s.rstrip(chars)\<close>\<close>
  "rstrip chars s = rev (dropWhile (\<lambda>c. c \<in> set chars) (rev s))"

definition strip :: "string \<Rightarrow> string \<Rightarrow> string" where
  \<comment> \<open>\<open>s.strip(chars)\<close>: leading and trailing characters of \<open>chars\<close> removed\<close>
  "strip chars s = rstrip chars (lstrip chars s)"

definition endswith :: "string \<Rightarrow> string \<Rightarrow> bool" where
  \<comment> \<open>\<open>s.endswith(suffix)\<close>\<close>
  "endswith s suf = (length suf \<le> length s \<and> drop (length s - length suf) s = suf)"

section \<open>Regular expressions: the backtracking matcher of Python's \<open>re\<close>\<close>

text \<open>
  The fragment of the pattern language that \<open>patterns.py\<close> uses: literal text, a
  character class of ranges, \<open>^\<close>, concatenation, the greedy \<open>?\<close>, the greedy
  bounded repetition \<open>{lo,hi}\<close> and the greedy \<open>+\<close>.
\<close>

datatype regex =
    Str string
  | Cls "(char \<times> char) list"
  | Bol
  | Seq regex regex
  | Opt regex
  | Rep nat nat regex
  | Plus regex

fun in_cls :: "(char \<times> char) list \<Rightarrow> char \<Rightarrow> bool" where
  "in_cls [] c = False"
| "in_cls ((lo, hi) # rs) c = ((lo \<le> c \<and> c \<le> hi) \<or> in_cls rs c)"

fun rsize :: "regex \<Rightarrow> nat" where
  "rsize (Seq a b) = Suc (rsize a + rsize b)"
| "rsize (Opt a) = Suc (rsize a)"
| "rsize (Rep lo hi a) = Suc (rsize a + hi)"
| "rsize (Plus a) = Suc (rsize a)"
| "rsize _ = 0"

text \<open>
  \<open>ms n r s\<close> matches \<open>r\<close> at the head of \<open>s\<close>, a suffix of a subject string of
  length \<open>n\<close>. It returns the text left after each way of matching, in the order in
  which a backtracking matcher tries them: the head of the list is the match that
  \<open>re\<close> reports. A greedy operator tries one more repetition before it tries to stop.
  An iteration of \<open>+\<close> that consumed nothing is not repeated.
\<close>

function ms :: "nat \<Rightarrow> regex \<Rightarrow> string \<Rightarrow> string list" where
  "ms n (Str w) s = (if take (length w) s = w then [drop (length w) s] else [])"
| "ms n (Cls rs) s = (case s of [] \<Rightarrow> [] | x # xs \<Rightarrow> if in_cls rs x then [xs] else [])"
| "ms n Bol s = (if length s = n then [s] else [])"
| "ms n (Seq a b) s = concat (map (ms n b) (ms n a s))"
| "ms n (Opt a) s = ms n a s @ [s]"
| "ms n (Rep lo 0 a) s = (if lo = 0 then [s] else [])"
| "ms n (Rep lo (Suc hi) a) s =
     concat (map (ms n (Rep (lo - 1) hi a)) (ms n a s)) @ (if lo = 0 then [s] else [])"
| "ms n (Plus a) s =
     concat (map (\<lambda>t. (if length t < length s then ms n (Plus a) t else []) @ [t])
       (ms n a s))"
  by pat_completeness auto
termination
  by (relation "measures [\<lambda>(n, r, s). rsize r, \<lambda>(n, r, s). length s]") auto

definition re_match :: "regex \<Rightarrow> string \<Rightarrow> string option" where
  \<comment> \<open>\<open>pattern.match(s)\<close>: the text matched at the start of \<open>s\<close>, or \<open>None\<close>\<close>
  "re_match r s =
     (case ms (length s) r s of [] \<Rightarrow> None | t # _ \<Rightarrow> Some (take (length s - length t) s))"

text \<open>
  \<open>pattern.findall(s)\<close> for a pattern without groups: the matches found scanning \<open>s\<close>
  from left to right, each search starting where the previous match ended. After an
  empty match the scan moves on by one character.
\<close>

function findall_from :: "nat \<Rightarrow> regex \<Rightarrow> string \<Rightarrow> string list" where
  "findall_from n r s =
     (case ms n r s of
        [] \<Rightarrow> (case s of [] \<Rightarrow> [] | c # cs \<Rightarrow> findall_from n r cs)
      | t # _ \<Rightarrow>
          (let m = take (length s - length t) s in
           if length t < length s then m # findall_from n r t
           else m # (case s of [] \<Rightarrow> [] | c # cs \<Rightarrow> findall_from n r cs)))"
  by pat_completeness auto
termination
  by (relation "measure (\<lambda>(n, r, s). length s)") auto

definition findall :: "regex \<Rightarrow> string \<Rightarrow> string list" where
  "findall r s = findall_from (length s) r s"

subsection \<open>The language of a pattern\<close>

text \<open>
  The declarative reading of a pattern: the set of strings it matches as a whole.
  It is what ``matches the pattern'' means in the specification; the matcher above
  is what the program runs.
\<close>

fun pow :: "string set \<Rightarrow> nat \<Rightarrow> string set" where
  "pow L 0 = {[]}"
| "pow L (Suc k) = {u @ v |u v. u \<in> L \<and> v \<in> pow L k}"

fun lang :: "regex \<Rightarrow> string set" where
  "lang (Str w) = {w}"
| "lang (Cls rs) = {[c] |c. in_cls rs c}"
| "lang Bol = {[]}"
| "lang (Seq a b) = {u @ v |u v. u \<in> lang a \<and> v \<in> lang b}"
| "lang (Opt a) = insert [] (lang a)"
| "lang (Rep lo hi a) = (\<Union>k\<in>{lo..hi}. pow (lang a) k)"
| "lang (Plus a) = (\<Union>k\<in>{1..}. pow (lang a) k)"

fun bol_free :: "regex \<Rightarrow> bool" where
  "bol_free Bol = False"
| "bol_free (Seq a b) = (bol_free a \<and> bol_free b)"
| "bol_free (Opt a) = bol_free a"
| "bol_free (Rep lo hi a) = bol_free a"
| "bol_free (Plus a) = bol_free a"
| "bol_free _ = True"

definition contains_match :: "regex \<Rightarrow> string \<Rightarrow> bool" where
  \<comment> \<open>some substring of \<open>s\<close> matches \<open>r\<close>\<close>
  "contains_match r s = (\<exists>pre w post. s = pre @ w @ post \<and> w \<in> lang r)"

definition first_match :: "regex \<Rightarrow> string \<Rightarrow> string \<Rightarrow> bool" where
  \<comment> \<open>\<open>m\<close> is a substring of \<open>s\<close> that matches \<open>r\<close>, and no match starts before it\<close>
  "first_match r s m =
     (\<exists>pre post. s = pre @ m @ post \<and> m \<in> lang r \<and>
        (\<forall>k<length pre. \<not> (\<exists>w t. w \<in> lang r \<and> drop k s = w @ t)))"


fun alphabet :: "regex \<Rightarrow> char set" where
  \<comment> \<open>the characters that can occur in a match\<close>
  "alphabet (Str w) = set w"
| "alphabet (Cls rs) = {c. in_cls rs c}"
| "alphabet Bol = {}"
| "alphabet (Seq a b) = alphabet a \<union> alphabet b"
| "alphabet (Opt a) = alphabet a"
| "alphabet (Rep lo hi a) = alphabet a"
| "alphabet (Plus a) = alphabet a"

section \<open>\<open>patterns.py\<close>\<close>

definition host_chars :: "(char \<times> char) list" where
  \<comment> \<open>\<open>[-a-zA-Z0-9]\<close>\<close>
  "host_chars = [(CHR ''-'', CHR ''-''), (CHR ''a'', CHR ''z''), (CHR ''A'', CHR ''Z''),
                 (CHR ''0'', CHR ''9'')]"

definition alpha_chars :: "(char \<times> char) list" where
  \<comment> \<open>\<open>[a-zA-Z]\<close>\<close>
  "alpha_chars = [(CHR ''a'', CHR ''z''), (CHR ''A'', CHR ''Z'')]"

definition host_char :: "char \<Rightarrow> bool" where
  \<comment> \<open>a character of \<open>[-a-zA-Z0-9]\<close>, or a dot\<close>
  "host_char c = (in_cls host_chars c \<or> c = CHR ''.'')"

definition DOMAIN_PATTERN :: regex where
  \<comment> \<open>\<open>https?://(?:www\.)?[-a-zA-Z0-9]{1,63}(?:\.[a-zA-Z]{2,6})+/?\<close>\<close>
  "DOMAIN_PATTERN =
     Seq (Str ''http'') (Seq (Opt (Str ''s'')) (Seq (Str ''://'')
       (Seq (Opt (Str ''www.''))
         (Seq (Rep 1 63 (Cls host_chars))
           (Seq (Plus (Seq (Str ''.'') (Rep 2 6 (Cls alpha_chars))))
             (Opt (Str ''/'')))))))"




definition LINK_PATTERN :: regex where
  \<comment> \<open>\<open>^/\<close>\<close>
  "LINK_PATTERN = Seq Bol (Str ''/'')"

section \<open>\<open>mapper_errors.py\<close>\<close>

text \<open>
  The exceptions that can end a call, each with its message: the one that
  \<open>mapper_errors.py\<close> defines, and those of the libraries that the crawler calls.
\<close>

datatype error =
    MapperURLInvalidError string
  | ValueError string
  | OverflowError string
  | MarkupError string
  | RecursionError string

definition MapperURLInvalidError_init :: error where
  \<comment> \<open>the fixed message; its accented letters are the code points U+00E3, U+00E9
      and U+00E1\<close>
  "MapperURLInvalidError_init =
     MapperURLInvalidError
       (''URL fornecida n'' @ [CHR 0xE3] @ ''o '' @ [CHR 0xE9]
         @ '' v'' @ [CHR 0xE1] @ ''lida.'')"

section \<open>\<open>mapper.py\<close>: construction\<close>

record mapper =
  domain :: string
  max_depth :: int
  rate_limit :: real
  visited :: "string fset"
  all_links :: "string fset"

definition Mapper_init :: "string \<Rightarrow> int \<Rightarrow> real \<Rightarrow> error + mapper" where
  "Mapper_init domain_str md rl =
     (case findall DOMAIN_PATTERN domain_str of
        [] \<Rightarrow> Inl MapperURLInvalidError_init
      | m0 # _ \<Rightarrow>
          Inr \<lparr>domain = strip ''/'' m0, max_depth = md, rate_limit = rl,
               visited = {||}, all_links = {||}\<rparr>)"

section \<open>\<open>urllib.parse\<close>\<close>

text \<open>
  \<open>urlparse\<close> and \<open>urljoin\<close> as CPython 3.11 defines them in
  \<open>Lib/urllib/parse.py\<close>, for \<open>str\<close> arguments and the default
  \<open>allow_fragments=True\<close>. On strings of code points up to U+00FF the NFKC check of
  the network location never fires. The validation of a bracketed host (an IPv6 or
  IPvFuture literal) is a parameter of the environment. A \<open>ValueError\<close> is a result.
\<close>

record split_result =
  scheme :: string
  netloc :: string
  path :: string
  query :: string
  fragment :: string

record parse_result = split_result +
  params :: string

definition uses_relative :: "string list" where
  "uses_relative = ['''', ''ftp'', ''http'', ''gopher'', ''nntp'', ''imap'',
                    ''wais'', ''file'', ''https'', ''shttp'', ''mms'',
                    ''prospero'', ''rtsp'', ''rtsps'', ''rtspu'', ''sftp'',
                    ''svn'', ''svn+ssh'', ''ws'', ''wss'']"

definition uses_netloc :: "string list" where
  "uses_netloc = ['''', ''ftp'', ''http'', ''gopher'', ''nntp'', ''telnet'',
                  ''imap'', ''wais'', ''file'', ''mms'', ''https'', ''shttp'',
                  ''snews'', ''prospero'', ''rtsp'', ''rtsps'', ''rtspu'', ''rsync'',
                  ''svn'', ''svn+ssh'', ''sftp'', ''nfs'', ''git'', ''git+ssh'',
                  ''ws'', ''wss'']"

definition uses_params :: "string list" where
  "uses_params = ['''', ''ftp'', ''hdl'', ''prospero'', ''http'', ''imap'',
                  ''https'', ''shttp'', ''rtsp'', ''rtsps'', ''rtspu'', ''sip'',
                  ''sips'', ''mms'', ''sftp'', ''tel'']"

definition scheme_char :: "char \<Rightarrow> bool" where
  \<comment> \<open>membership in \<open>scheme_chars\<close>\<close>
  "scheme_char c =
     in_cls [(CHR ''a'', CHR ''z''), (CHR ''A'', CHR ''Z''), (CHR ''0'', CHR ''9''),
             (CHR ''+'', CHR ''+''), (CHR ''-'', CHR ''-''), (CHR ''.'', CHR ''.'')] c"

definition ascii_alpha :: "char \<Rightarrow> bool" where
  \<comment> \<open>\<open>c.isascii() and c.isalpha()\<close>\<close>
  "ascii_alpha c = in_cls alpha_chars c"

definition lower_char :: "char \<Rightarrow> char" where
  \<comment> \<open>\<open>str.lower\<close> on one character of \<open>scheme_chars\<close>\<close>
  "lower_char c =
     (if CHR ''A'' \<le> c \<and> c \<le> CHR ''Z'' then char_of (of_char c + (32 :: nat)) else c)"

definition c0_control_or_space :: "char \<Rightarrow> bool" where
  \<comment> \<open>membership in \<open>_WHATWG_C0_CONTROL_OR_SPACE\<close>\<close>
  "c0_control_or_space c = (c \<le> CHR 0x20)"

definition unsafe_url_byte :: "char \<Rightarrow> bool" where
  \<comment> \<open>membership in \<open>_UNSAFE_URL_BYTES_TO_REMOVE\<close>: tab, carriage return, line feed\<close>
  "unsafe_url_byte c = (c = CHR 0x09 \<or> c = CHR 0x0D \<or> c = CHR 0x0A)"

definition split_once :: "char \<Rightarrow> string \<Rightarrow> string \<times> string" where
  \<comment> \<open>\<open>s.split(c, 1)\<close> for a string \<open>s\<close> that contains \<open>c\<close>\<close>
  "split_once c s = (takeWhile (\<lambda>x. x \<noteq> c) s, drop 1 (dropWhile (\<lambda>x. x \<noteq> c) s))"

fun split_on :: "char \<Rightarrow> string \<Rightarrow> string list" where
  "split_on c [] = [[]]"
| "split_on c (x # xs) =
     (if x = c then [] # split_on c xs
      else (case split_on c xs of [] \<Rightarrow> [[x]] | y # ys \<Rightarrow> (x # y) # ys))"

fun join :: "string \<Rightarrow> string list \<Rightarrow> string" where
  "join sep [] = []"
| "join sep [x] = x"
| "join sep (x # y # zs) = x @ sep @ join sep (y # zs)"

text \<open>
  \<open>split_on c s\<close> is \<open>s.split(c)\<close> and \<open>join sep xs\<close> is \<open>sep.join(xs)\<close>.

  A parsed page is the list of its anchors, each with the value of its \<open>href\<close>
  attribute if it has one. What the \<open>try\<close> block of \<open>_get_page\<close> and the parsing of
  the body do for a URL is a \<open>response\<close>: the parsed page; or a \<open>RequestException\<close>
  \<open>e\<close>, given by the text \<open>str(e)\<close>; or another exception, which \<open>_get_page\<close> does not
  catch.
\<close>

type_synonym soup = "string option list"

datatype response =
    Page soup
  | RequestException string
  | Raised error

text \<open>
  The environment of a run: what the world outside the program does.
  \<^item> \<open>requests_get url\<close> is the response for \<open>url\<close>.
  \<^item> \<open>console text\<close> is the exception that Rich's \<open>console.log\<close> or \<open>console.print\<close>
    raises when it is given the markup \<open>text\<close>, if it raises one. Rich raises
    \<open>MarkupError\<close> for a closing tag such as \<open>[/b]\<close> that closes no open tag.
  \<^item> \<open>sleep_overflow secs\<close> is the message of the \<open>OverflowError\<close> that \<open>time.sleep\<close>
    raises for the non-negative duration \<open>secs\<close>, if it raises one: it does for a
    duration too large for the platform's time type.
  \<^item> \<open>set_order\<close> ranks the elements of a Python set for iteration (see
    \<open>set_to_list\<close>).
  \<^item> \<open>check_bracketed_host h\<close> is the message of the \<open>ValueError\<close> that
    \<open>_check_bracketed_host\<close> raises for \<open>h\<close>, if it raises.

  The interpreter bounds the depth of the call stack, and \<open>crawl\<close> calls itself once
  for each level of depth: a crawl that goes too deep ends by a \<open>RecursionError\<close>. It
  is raised in a call that needs more stack than is left, and of the calls that
  \<open>crawl\<close> makes at one level those of the console and of the request need the most.
  In the model a \<open>RecursionError\<close> is therefore an exception of \<open>console\<close> or of
  \<open>requests_get\<close>, like any other exception of theirs. A URL is logged and requested
  at most once for a \<open>Mapper\<close>, so a function of the text, or of the URL, can say
  where that happens (\<open>deep_site\<close> below is an example).
\<close>

record env =
  requests_get :: "string \<Rightarrow> response"
  console :: "string \<Rightarrow> error option"
  sleep_overflow :: "real \<Rightarrow> string option"
  set_order :: "string list \<Rightarrow> string \<Rightarrow> nat"
  check_bracketed_host :: "string \<Rightarrow> string option"

definition split_scheme :: "string \<Rightarrow> string \<Rightarrow> string \<times> string" where
  "split_scheme url scheme0 =
     (let pre = takeWhile (\<lambda>c. c \<noteq> CHR '':'') url in
      if CHR '':'' \<in> set url \<and> pre \<noteq> [] \<and> ascii_alpha (hd url) \<and> list_all scheme_char pre
      then (map lower_char pre, drop (length pre + 1) url)
      else (scheme0, url))"

definition splitnetloc :: "string \<Rightarrow> nat \<Rightarrow> string \<times> string" where
  "splitnetloc url start =
     (let rest = drop start url in
      (takeWhile (\<lambda>c. c \<notin> set ''/?#'') rest, dropWhile (\<lambda>c. c \<notin> set ''/?#'') rest))"

definition bracketed_host :: "string \<Rightarrow> string" where
  \<comment> \<open>\<open>netloc.partition('[')[2].partition(']')[0]\<close>\<close>
  "bracketed_host nl =
     takeWhile (\<lambda>c. c \<noteq> CHR '']'') (drop 1 (dropWhile (\<lambda>c. c \<noteq> CHR ''['') nl))"

definition check_netloc_brackets :: "env \<Rightarrow> string \<Rightarrow> error option" where
  "check_netloc_brackets E nl =
     (if (CHR ''['' \<in> set nl \<and> CHR '']'' \<notin> set nl) \<or> (CHR '']'' \<in> set nl \<and> CHR ''['' \<notin> set nl)
      then Some (ValueError ''Invalid IPv6 URL'')
      else if CHR ''['' \<in> set nl \<and> CHR '']'' \<in> set nl
      then map_option ValueError (check_bracketed_host E (bracketed_host nl))
      else None)"

definition urlsplit :: "env \<Rightarrow> string \<Rightarrow> string \<Rightarrow> error + split_result" where
  "urlsplit E url0 scheme0 =
     (let url1 = filter (\<lambda>c. \<not> unsafe_url_byte c) (dropWhile c0_control_or_space url0);
          scheme1 = filter (\<lambda>c. \<not> unsafe_url_byte c)
                      (rev (dropWhile c0_control_or_space
                        (rev (dropWhile c0_control_or_space scheme0))));
          (scheme2, url2) = split_scheme url1 scheme1;
          (netloc2, url3) = (if take 2 url2 = ''//'' then splitnetloc url2 2 else ([], url2))
      in case (if take 2 url2 = ''//'' then check_netloc_brackets E netloc2 else None) of
           Some e \<Rightarrow> Inl e
         | None \<Rightarrow>
             (let (url4, fragment2) =
                    (if CHR ''#'' \<in> set url3 then split_once CHR ''#'' url3 else (url3, []));
                  (url5, query2) =
                    (if CHR ''?'' \<in> set url4 then split_once CHR ''?'' url4 else (url4, []))
              in Inr \<lparr>scheme = scheme2, netloc = netloc2, path = url5, query = query2,
                      fragment = fragment2\<rparr>))"

definition splitparams :: "string \<Rightarrow> string \<times> string" where
  \<comment> \<open>\<open>_splitparams\<close>, called on a string that contains \<open>;\<close>\<close>
  "splitparams url =
     (if CHR ''/'' \<in> set url then
        (let seg = rev (takeWhile (\<lambda>c. c \<noteq> CHR ''/'') (rev url));
             dir = take (length url - length seg) url
         in if CHR '';'' \<in> set seg
            then (dir @ takeWhile (\<lambda>c. c \<noteq> CHR '';'') seg,
                  drop 1 (dropWhile (\<lambda>c. c \<noteq> CHR '';'') seg))
            else (url, []))
      else split_once CHR '';'' url)"

definition urlparse :: "env \<Rightarrow> string \<Rightarrow> string \<Rightarrow> error + parse_result" where
  "urlparse E url scheme0 =
     (case urlsplit E url scheme0 of
        Inl e \<Rightarrow> Inl e
      | Inr sr \<Rightarrow>
          (let (url', params') =
                 (if scheme sr \<in> set uses_params \<and> CHR '';'' \<in> set (path sr)
                  then splitparams (path sr) else (path sr, []))
           in Inr \<lparr>scheme = scheme sr, netloc = netloc sr, path = url', query = query sr,
                   fragment = fragment sr, params = params'\<rparr>))"

definition urlunsplit :: "split_result \<Rightarrow> string" where
  "urlunsplit c =
     (let url1 =
            (if netloc c \<noteq> [] \<or> (scheme c \<noteq> [] \<and> scheme c \<in> set uses_netloc)
                \<or> take 2 (path c) = ''//''
             then ''//'' @ netloc c
                    @ (if path c \<noteq> [] \<and> take 1 (path c) \<noteq> ''/'' then ''/'' @ path c else path c)
             else path c);
          url2 = (if scheme c \<noteq> [] then scheme c @ '':'' @ url1 else url1);
          url3 = (if query c \<noteq> [] then url2 @ ''?'' @ query c else url2)
      in if fragment c \<noteq> [] then url3 @ ''#'' @ fragment c else url3)"

definition urlunparse :: "parse_result \<Rightarrow> string" where
  "urlunparse c =
     urlunsplit \<lparr>scheme = scheme c, netloc = netloc c,
                path = (if params c \<noteq> [] then path c @ '';'' @ params c else path c),
                query = query c, fragment = fragment c\<rparr>"

definition resolve_segment :: "string list \<Rightarrow> string \<Rightarrow> string list" where
  \<comment> \<open>one step of the loop over \<open>segments\<close> in \<open>urljoin\<close>\<close>
  "resolve_segment resolved_path seg =
     (if seg = ''..'' then butlast resolved_path
      else if seg = ''.'' then resolved_path
      else resolved_path @ [seg])"

definition urljoin :: "env \<Rightarrow> string \<Rightarrow> string \<Rightarrow> error + string" where
  "urljoin E base url =
     (if base = [] then Inr url
      else if url = [] then Inr base
      else case urlparse E base [] of
        Inl e \<Rightarrow> Inl e
      | Inr b \<Rightarrow>
         (case urlparse E url (scheme b) of
            Inl e \<Rightarrow> Inl e
          | Inr u \<Rightarrow>
             if scheme u \<noteq> scheme b \<or> scheme u \<notin> set uses_relative then Inr url
             else if scheme u \<in> set uses_netloc \<and> netloc u \<noteq> [] then Inr (urlunparse u)
             else
               (let netloc' = (if scheme u \<in> set uses_netloc then netloc b else netloc u) in
                if path u = [] \<and> params u = [] then
                  Inr (urlunparse (u\<lparr>netloc := netloc', path := path b, params := params b,
                         query := (if query u = [] then query b else query u)\<rparr>))
                else
                  (let base_parts0 = split_on CHR ''/'' (path b);
                       base_parts =
                         (if last base_parts0 \<noteq> [] then butlast base_parts0 else base_parts0);
                       segments =
                         (if take 1 (path u) = ''/'' then split_on CHR ''/'' (path u)
                          else (let segs = base_parts @ split_on CHR ''/'' (path u) in
                                if length segs \<le> 1 then segs
                                else hd segs # filter (\<lambda>x. x \<noteq> []) (butlast (tl segs))
                                       @ [last segs]));
                       resolved_path0 = foldl resolve_segment [] segments;
                       resolved_path =
                         (if last segments = ''.'' \<or> last segments = ''..''
                          then resolved_path0 @ [[]] else resolved_path0);
                       joined = join ''/'' resolved_path
                   in Inr (urlunparse (u\<lparr>netloc := netloc',
                             path := (if joined = [] then ''/'' else joined)\<rparr>))))))"

section \<open>\<open>mapper.py\<close>: the crawler\<close>

definition get_page :: "env \<Rightarrow> string \<Rightarrow> error + soup" where
  \<comment> \<open>a \<open>RequestException\<close> is caught: the handler prints a line on the console, which
      can raise, and returns the empty document\<close>
  "get_page E url =
     (case requests_get E url of
        Page page \<Rightarrow> Inr page
      | RequestException msg \<Rightarrow>
          (case console E (''[red]Erro ao acessar '' @ url @ '':[/red] '' @ msg) of
             Some e \<Rightarrow> Inl e
           | None \<Rightarrow> Inr [])
      | Raised e \<Rightarrow> Inl e)"

definition find_links :: "soup \<Rightarrow> string list" where
  "find_links page = [href. Some href \<leftarrow> page]"

definition set_to_list :: "env \<Rightarrow> string list \<Rightarrow> string list" where
  \<comment> \<open>\<open>list(set(xs))\<close>: the distinct elements of \<open>xs\<close>, in the order in which the set
      built from \<open>xs\<close> is iterated; Python leaves that order unspecified\<close>
  "set_to_list E xs = sort_key (set_order E xs) (remdups xs)"

definition clean_links :: "env \<Rightarrow> string list \<Rightarrow> string list" where
  "clean_links E links =
     set_to_list E [link \<leftarrow> links. link \<noteq> [] \<and> re_match LINK_PATTERN link \<noteq> None]"

definition non_content_exts :: "string list" where
  "non_content_exts = [''.pdf'', ''.jpg'', ''.jpeg'', ''.png'', ''.gif'', ''.svg'']"

definition is_valid_url :: "env \<Rightarrow> mapper \<Rightarrow> string \<Rightarrow> error + bool" where
  "is_valid_url E m url =
     (case urlparse E url [] of
        Inl e \<Rightarrow> Inl e
      | Inr parsed_url \<Rightarrow>
          (case urlparse E (domain m) [] of
             Inl e \<Rightarrow> Inl e
           | Inr domain_parsed \<Rightarrow>
               if netloc parsed_url \<noteq> netloc domain_parsed then Inr False
               else if list_ex (endswith (path parsed_url)) non_content_exts then Inr False
               else Inr True))"

definition rate_limit_wait :: "env \<Rightarrow> mapper \<Rightarrow> error option" where
  \<comment> \<open>\<open>sleep(self.rate_limit)\<close> changes no state; \<open>time.sleep\<close> raises \<open>ValueError\<close> for a
      negative argument and \<open>OverflowError\<close> for one that is too large\<close>
  "rate_limit_wait E m =
     (if rate_limit m < 0 then Some (ValueError ''sleep length must be non-negative'')
      else map_option OverflowError (sleep_overflow E (rate_limit m)))"

text \<open>
  \<open>crawl\<close> returns the state of the \<open>Mapper\<close> when the call ends, and the exception
  if the call ends by one. \<open>crawl_links\<close> is the \<open>for\<close> loop over the cleaned links.
  What the console prints is no part of the state; that it can raise is.
\<close>

function crawl :: "env \<Rightarrow> mapper \<Rightarrow> string \<Rightarrow> int \<Rightarrow> mapper \<times> error option"
  and crawl_links :: "env \<Rightarrow> mapper \<Rightarrow> string list \<Rightarrow> int \<Rightarrow> mapper \<times> error option" where
  "crawl E m url depth =
     (if depth > max_depth m then (m, None)
      else if url |\<in>| visited m then (m, None)
      else
        (let m1 = m\<lparr>visited := finsert url (visited m)\<rparr> in
         case console E (''Visitando: [blue]'' @ url @ ''[/blue]'') of
           Some e \<Rightarrow> (m1, Some e)
         | None \<Rightarrow>
             (case get_page E url of
                Inl e \<Rightarrow> (m1, Some e)
              | Inr html \<Rightarrow>
                  (let links = find_links html;
                       cleaned = clean_links E links
                   in crawl_links E m1 cleaned depth))))"
| "crawl_links E m [] depth = (m, None)"
| "crawl_links E m (link # rest) depth =
     (case urljoin E (domain m) link of
        Inl e \<Rightarrow> (m, Some e)
      | Inr absolute_url \<Rightarrow>
          (case is_valid_url E m absolute_url of
             Inl e \<Rightarrow> (m, Some e)
           | Inr valid \<Rightarrow>
               if valid \<and> absolute_url |\<notin>| visited m then
                 (case crawl E (m\<lparr>all_links := finsert absolute_url (all_links m)\<rparr>)
                         absolute_url (depth + 1) of
                    (m2, Some e) \<Rightarrow> (m2, Some e)
                  | (m2, None) \<Rightarrow>
                      (case rate_limit_wait E m2 of
                         Some e \<Rightarrow> (m2, Some e)
                       | None \<Rightarrow> crawl_links E m2 rest depth))
               else crawl_links E m rest depth))"
  by pat_completeness auto

lemma crawl_max_depth_partial:
  "crawl_crawl_links_dom (Inl (E, m, url, depth)) \<Longrightarrow>
     max_depth (fst (crawl E m url depth)) = max_depth m"
  "crawl_crawl_links_dom (Inr (E, m, links, depth)) \<Longrightarrow>
     max_depth (fst (crawl_links E m links depth)) = max_depth m"
proof (induction E m url depth and E m links depth rule: crawl_crawl_links.pinduct)
  case (1 E m url depth)
  then show ?case
    by (auto simp: crawl.psimps Let_def split: option.splits sum.splits)
next
  case (2 E m depth)
  then show ?case by (simp add: crawl_links.psimps)
next
  case (3 E m link rest depth)
  show ?case
  proof (cases "urljoin E (domain m) link")
    case (Inl e)
    then show ?thesis using 3(1) by (simp add: crawl_links.psimps)
  next
    case (Inr a)
    show ?thesis
    proof (cases "is_valid_url E m a")
      case (Inl e)
      then show ?thesis using 3(1) Inr by (simp add: crawl_links.psimps)
    next
      case valid: (Inr ok)
      show ?thesis
      proof (cases "ok \<and> a |\<notin>| visited m")
        case False
        then show ?thesis using 3(1) 3(4)[OF Inr valid False] Inr valid
          by (auto simp: crawl_links.psimps)
      next
        case True
        obtain m2 r where c: "crawl E (m\<lparr>all_links := finsert a (all_links m)\<rparr>) a (depth + 1) = (m2, r)"
          by (cases "crawl E (m\<lparr>all_links := finsert a (all_links m)\<rparr>) a (depth + 1)")
        have md: "max_depth m2 = max_depth m" using 3(2)[OF Inr valid True] c by simp
        show ?thesis
        proof (cases r)
          case None
          show ?thesis
          proof (cases "rate_limit_wait E m2")
            case wait: None
            then show ?thesis
              using 3(1) 3(3)[OF Inr valid True c[symmetric] None wait] Inr valid True c md None
              by (simp add: crawl_links.psimps)
          next
            case (Some e)
            then show ?thesis using 3(1) Inr valid True c md None
              by (simp add: crawl_links.psimps)
          qed
        next
          case (Some e)
          then show ?thesis using 3(1) Inr valid True c md by (simp add: crawl_links.psimps)
        qed
      qed
    qed
  qed
qed

termination crawl
proof (relation "measures
    [\<lambda>x. case x of
        Inl (E, m, url, depth) \<Rightarrow> 2 * nat (max_depth m + 1 - depth)
      | Inr (E, m, links, depth) \<Rightarrow> 2 * nat (max_depth m - depth) + 1,
     \<lambda>x. case x of Inl _ \<Rightarrow> 0 | Inr (E, m, links, depth) \<Rightarrow> length links]",
    goal_cases)
  case 1
  then show ?case by simp
next
  case 2
  then show ?case by simp
next
  case 3
  then show ?case by simp
next
  case (4 E m link rest depth a ok m2 r)
  from crawl_max_depth_partial(1)[OF 4(7)] 4(4)[symmetric]
  have "max_depth m2 = max_depth m" by simp
  then show ?case by simp
next
  case 5
  then show ?case by simp
qed

definition map_web_site :: "env \<Rightarrow> mapper \<Rightarrow> mapper \<times> (error + string list)" where
  "map_web_site E m =
     (case crawl E m (domain m) 0 of
        (m', Some e) \<Rightarrow> (m', Inl e)
      | (m', None) \<Rightarrow> (m', Inr (sorted_list_of_fset (all_links m'))))"

text \<open>
  The calls of \<open>crawl\<close> and of its loop, as derivations: \<open>crawls E m url depth res\<close> holds
  when the call ends with \<open>res\<close>. Every call has its derivation (lemma
  \<open>crawl_derivation\<close> below), so properties of \<open>crawl\<close> are proved by rule induction.
\<close>

inductive crawls :: "env \<Rightarrow> mapper \<Rightarrow> string \<Rightarrow> int \<Rightarrow> mapper \<times> error option \<Rightarrow> bool"
  and crawls_links :: "env \<Rightarrow> mapper \<Rightarrow> string list \<Rightarrow> int \<Rightarrow> mapper \<times> error option \<Rightarrow> bool"
  where
  skip: "depth > max_depth m \<or> url |\<in>| visited m \<Longrightarrow> crawls E m url depth (m, None)"
| log_error: "\<not> depth > max_depth m \<Longrightarrow> url |\<notin>| visited m \<Longrightarrow>
     console E (''Visitando: [blue]'' @ url @ ''[/blue]'') = Some e \<Longrightarrow>
     crawls E m url depth (m\<lparr>visited := finsert url (visited m)\<rparr>, Some e)"
| page_error: "\<not> depth > max_depth m \<Longrightarrow> url |\<notin>| visited m \<Longrightarrow>
     console E (''Visitando: [blue]'' @ url @ ''[/blue]'') = None \<Longrightarrow>
     get_page E url = Inl e \<Longrightarrow>
     crawls E m url depth (m\<lparr>visited := finsert url (visited m)\<rparr>, Some e)"
| enter: "\<not> depth > max_depth m \<Longrightarrow> url |\<notin>| visited m \<Longrightarrow>
     console E (''Visitando: [blue]'' @ url @ ''[/blue]'') = None \<Longrightarrow>
     get_page E url = Inr html \<Longrightarrow>
     crawls_links E (m\<lparr>visited := finsert url (visited m)\<rparr>)
       (clean_links E (find_links html)) depth res \<Longrightarrow>
     crawls E m url depth res"
| finish: "crawls_links E m [] depth (m, None)"
| join_error: "urljoin E (domain m) link = Inl e \<Longrightarrow>
     crawls_links E m (link # rest) depth (m, Some e)"
| valid_error: "urljoin E (domain m) link = Inr a \<Longrightarrow> is_valid_url E m a = Inl e \<Longrightarrow>
     crawls_links E m (link # rest) depth (m, Some e)"
| pass: "urljoin E (domain m) link = Inr a \<Longrightarrow> is_valid_url E m a = Inr ok \<Longrightarrow>
     \<not> (ok \<and> a |\<notin>| visited m) \<Longrightarrow> crawls_links E m rest depth res \<Longrightarrow>
     crawls_links E m (link # rest) depth res"
| follow_error: "urljoin E (domain m) link = Inr a \<Longrightarrow> is_valid_url E m a = Inr True \<Longrightarrow>
     a |\<notin>| visited m \<Longrightarrow>
     crawls E (m\<lparr>all_links := finsert a (all_links m)\<rparr>) a (depth + 1) (m2, Some e) \<Longrightarrow>
     crawls_links E m (link # rest) depth (m2, Some e)"
| wait_error: "urljoin E (domain m) link = Inr a \<Longrightarrow> is_valid_url E m a = Inr True \<Longrightarrow>
     a |\<notin>| visited m \<Longrightarrow>
     crawls E (m\<lparr>all_links := finsert a (all_links m)\<rparr>) a (depth + 1) (m2, None) \<Longrightarrow>
     rate_limit_wait E m2 = Some e \<Longrightarrow>
     crawls_links E m (link # rest) depth (m2, Some e)"
| follow: "urljoin E (domain m) link = Inr a \<Longrightarrow> is_valid_url E m a = Inr True \<Longrightarrow>
     a |\<notin>| visited m \<Longrightarrow>
     crawls E (m\<lparr>all_links := finsert a (all_links m)\<rparr>) a (depth + 1) (m2, None) \<Longrightarrow>
     rate_limit_wait E m2 = None \<Longrightarrow>
     crawls_links E m2 rest depth res \<Longrightarrow>
     crawls_links E m (link # rest) depth res"

definition extends :: "mapper \<Rightarrow> mapper \<Rightarrow> bool" where
  \<comment> \<open>\<open>m'\<close> has the configuration of \<open>m\<close>, and its two sets include those of \<open>m\<close>\<close>
  "extends m m' \<longleftrightarrow>
     domain m' = domain m \<and> max_depth m' = max_depth m \<and> rate_limit m' = rate_limit m \<and>
     visited m |\<subseteq>| visited m' \<and> all_links m |\<subseteq>| all_links m'"

subsection \<open>Example environments\<close>

definition example_site :: env where
  \<comment> \<open>the seed page links to \<open>/a\<close> and \<open>/b\<close>; \<open>/a\<close> links to \<open>/c\<close>; no other links\<close>
  "example_site =
     \<lparr>requests_get =
        (\<lambda>url. if url = ''http://host.com'' then Page [Some ''/a'', Some ''/b'']
               else if url = ''http://host.com/a'' then Page [Some ''/c'']
               else Page []),
      console = (\<lambda>text. None),
      sleep_overflow = (\<lambda>secs. None),
      set_order = (\<lambda>xs x. 0),
      check_bracketed_host = (\<lambda>h. None)\<rparr>"

definition offline_site :: env where
  \<comment> \<open>every request fails\<close>
  "offline_site =
     \<lparr>requests_get = (\<lambda>url. RequestException ''Connection refused''),
      console = (\<lambda>text. None),
      sleep_overflow = (\<lambda>secs. None),
      set_order = (\<lambda>xs x. 0),
      check_bracketed_host = (\<lambda>h. None)\<rparr>"

definition example_mapper :: mapper where
  \<comment> \<open>\<open>Mapper('http://host.com', 1, 0.5)\<close>\<close>
  "example_mapper =
     \<lparr>domain = ''http://host.com'', max_depth = 1, rate_limit = 1 / 2,
      visited = {||}, all_links = {||}\<rparr>"

definition slash_site :: env where
  \<comment> \<open>the home page, under both spellings of its URL, links to \<open>/\<close>\<close>
  "slash_site =
     \<lparr>requests_get =
        (\<lambda>url. if url = ''http://host.com'' \<or> url = ''http://host.com/''
               then Page [Some ''/''] else Page []),
      console = (\<lambda>text. None),
      sleep_overflow = (\<lambda>secs. None),
      set_order = (\<lambda>xs x. 0),
      check_bracketed_host = (\<lambda>h. None)\<rparr>"

definition bracket_site :: env where
  \<comment> \<open>the seed page has one anchor, \<open><a href="//[">\<close>\<close>
  "bracket_site =
     \<lparr>requests_get = (\<lambda>url. if url = ''http://host.com'' then Page [Some ''//[''] else Page []),
      console = (\<lambda>text. None),
      sleep_overflow = (\<lambda>secs. None),
      set_order = (\<lambda>xs x. 0),
      check_bracketed_host = (\<lambda>h. None)\<rparr>"

definition deep_site :: env where
  \<comment> \<open>a chain of pages, \<open>/1\<close> linked from the seed, \<open>/2\<close> from \<open>/1\<close> and so on; the stack
      is exhausted when the third nested call of \<open>crawl\<close> logs its URL\<close>
  "deep_site =
     \<lparr>requests_get =
        (\<lambda>url. if url = ''http://host.com'' then Page [Some ''/1'']
               else if url = ''http://host.com/1'' then Page [Some ''/2'']
               else if url = ''http://host.com/2'' then Page [Some ''/3'']
               else if url = ''http://host.com/3'' then Page [Some ''/4'']
               else Page []),
      console =
        (\<lambda>text. if text = ''Visitando: [blue]http://host.com/2[/blue]''
                 then Some (RecursionError ''maximum recursion depth exceeded'')
                 else None),
      sleep_overflow = (\<lambda>secs. None),
      set_order = (\<lambda>xs x. 0),
      check_bracketed_host = (\<lambda>h. None)\<rparr>"

definition markup_site :: env where
  \<comment> \<open>the server answers the request for the seed with the status line
      \<open>HTTP/1.1 404 [/oops]\<close>:
      \<open>raise_for_status\<close> raises an \<open>HTTPError\<close>, whose text holds the reason phrase, and
      Rich raises \<open>MarkupError\<close> on the line that the handler prints\<close>
  "markup_site =
     \<lparr>requests_get =
        (\<lambda>url. if url = ''http://host.com''
               then RequestException ''404 Client Error: [/oops] for url: http://host.com/''
               else Page []),
      console =
        (\<lambda>text. if text = ''[red]Erro ao acessar http://host.com:[/red] ''
                            @ ''404 Client Error: [/oops] for url: http://host.com/''
                 then Some (MarkupError
                        (''closing tag '' @ [CHR 0x27] @ ''[/oops]'' @ [CHR 0x27]
                           @ '' at position 62 doesn'' @ [CHR 0x27]
                           @ ''t match any open tag''))
                 else None),
      sleep_overflow = (\<lambda>secs. None),
      set_order = (\<lambda>xs x. 0),
      check_bracketed_host = (\<lambda>h. None)\<rparr>"

section \<open>The matcher finds what the pattern describes\<close>

declare ms.simps(8) [simp del]

lemma set_ms_Plus:
  "set (ms n (Plus a) s) =
     (\<Union>t\<in>set (ms n a s). (if length t < length s then set (ms n (Plus a) t) else {}) \<union> {t})"
  by (subst ms.simps(8)) (auto split: if_splits)

lemma ms_Rep_lang:
  assumes IH: "\<And>s. set (ms n a s) = {t. \<exists>w\<in>lang a. s = w @ t}"
  shows "set (ms n (Rep lo hi a) s) = {t. \<exists>k\<in>{lo..hi}. \<exists>w\<in>pow (lang a) k. s = w @ t}"
proof (induction hi arbitrary: lo s)
  case 0
  then show ?case by auto
next
  case (Suc hi)
  show ?case
  proof (intro set_eqI iffI)
    fix t assume "t \<in> set (ms n (Rep lo (Suc hi) a) s)"
    then consider (more) s' where "s' \<in> set (ms n a s)" "t \<in> set (ms n (Rep (lo - 1) hi a) s')"
      | (stop) "lo = 0" "t = s"
      by (auto split: if_splits)
    then show "t \<in> {t. \<exists>k\<in>{lo..Suc hi}. \<exists>w\<in>pow (lang a) k. s = w @ t}"
    proof cases
      case more
      from more(1) IH obtain u where u: "u \<in> lang a" "s = u @ s'" by auto
      from more(2) Suc.IH obtain k v where
        kv: "lo - 1 \<le> k" "k \<le> hi" "v \<in> pow (lang a) k" "s' = v @ t" by auto
      have "u @ v \<in> pow (lang a) (Suc k)" using u(1) kv(3) by auto
      moreover have "lo \<le> Suc k" "Suc k \<le> Suc hi" using kv by auto
      moreover have "s = (u @ v) @ t" using u kv by simp
      ultimately show ?thesis by (metis (mono_tags, lifting) atLeastAtMost_iff mem_Collect_eq)
    next
      case stop
      then show ?thesis by (auto intro!: bexI[of _ 0])
    qed
  next
    fix t assume "t \<in> {t. \<exists>k\<in>{lo..Suc hi}. \<exists>w\<in>pow (lang a) k. s = w @ t}"
    then obtain k w where kw: "lo \<le> k" "k \<le> Suc hi" "w \<in> pow (lang a) k" "s = w @ t"
      by auto
    show "t \<in> set (ms n (Rep lo (Suc hi) a) s)"
    proof (cases k)
      case 0
      then show ?thesis using kw by auto
    next
      case (Suc k')
      then obtain u v where uv: "w = u @ v" "u \<in> lang a" "v \<in> pow (lang a) k'"
        using kw(3) by auto
      have 1: "v @ t \<in> set (ms n a s)" using IH uv kw by auto
      have "t \<in> set (ms n (Rep (lo - 1) hi a) (v @ t))"
        using Suc.IH[of "lo - 1" "v @ t"] uv(3) kw(1,2) Suc by auto
      with 1 show ?thesis by auto
    qed
  qed
qed

lemma pow_lang_Plus: "k \<ge> 1 \<Longrightarrow> w \<in> pow (lang a) k \<Longrightarrow> w \<in> lang (Plus a)"
  by auto

lemma lang_Plus_one: "u \<in> lang a \<Longrightarrow> u \<in> lang (Plus a)"
  by (auto intro!: bexI[of _ 1])

lemma lang_Plus_step: "u \<in> lang a \<Longrightarrow> v \<in> lang (Plus a) \<Longrightarrow> u @ v \<in> lang (Plus a)"
proof -
  assume u: "u \<in> lang a" and "v \<in> lang (Plus a)"
  then obtain k where k: "k \<ge> 1" "v \<in> pow (lang a) k" by auto
  then have "u @ v \<in> pow (lang a) (Suc k)" using u by auto
  then show ?thesis using pow_lang_Plus[of "Suc k"] by simp
qed

lemma ms_Plus_sound:
  assumes IH: "\<And>s. set (ms n a s) = {t. \<exists>w\<in>lang a. s = w @ t}"
  shows "t \<in> set (ms n (Plus a) s) \<Longrightarrow> \<exists>w\<in>lang (Plus a). s = w @ t"
proof (induction s arbitrary: t rule: length_induct)
  case (1 s)
  from 1(2) obtain s' where s': "s' \<in> set (ms n a s)"
    and t: "(length s' < length s \<and> t \<in> set (ms n (Plus a) s')) \<or> t = s'"
    unfolding set_ms_Plus[of n a s] by (auto split: if_splits)
  from s' IH obtain u where u: "u \<in> lang a" "s = u @ s'" by auto
  from t show ?case
  proof
    assume a: "length s' < length s \<and> t \<in> set (ms n (Plus a) s')"
    with 1(1) obtain v where v: "v \<in> lang (Plus a)" "s' = v @ t" by blast
    have "u @ v \<in> lang (Plus a)" using lang_Plus_step[OF u(1) v(1)] .
    moreover have "s = (u @ v) @ t" using u v by simp
    ultimately show ?thesis by blast
  next
    assume "t = s'"
    then show ?thesis using u lang_Plus_one[OF u(1)] by blast
  qed
qed

lemma ms_Plus_complete:
  assumes IH: "\<And>s. set (ms n a s) = {t. \<exists>w\<in>lang a. s = w @ t}"
  shows "k \<ge> 1 \<Longrightarrow> w \<in> pow (lang a) k \<Longrightarrow> t \<in> set (ms n (Plus a) (w @ t))"
proof (induction k arbitrary: w)
  case 0
  then show ?case by simp
next
  case (Suc k)
  from Suc.prems(2) obtain u v where uv: "w = u @ v" "u \<in> lang a" "v \<in> pow (lang a) k"
    by auto
  show ?case
  proof (cases "k = 0")
    case True
    then have "v = []" using uv by simp
    then have "t \<in> set (ms n a (w @ t))" using IH uv by auto
    then show ?thesis unfolding set_ms_Plus[of n a "w @ t"] by blast
  next
    case False
    then have k1: "k \<ge> 1" by simp
    show ?thesis
    proof (cases "u = []")
      case True
      then show ?thesis using Suc.IH[OF k1 uv(3)] uv(1) by simp
    next
      case False
      have 1: "v @ t \<in> set (ms n a (w @ t))" using IH uv by auto
      have 2: "length (v @ t) < length (w @ t)" using False uv(1) by simp
      have 3: "t \<in> set (ms n (Plus a) (v @ t))" using Suc.IH[OF k1 uv(3)] .
      from 1 2 3 show ?thesis unfolding set_ms_Plus[of n a "w @ t"] by force
    qed
  qed
qed

lemma ms_lang: "bol_free r \<Longrightarrow> set (ms n r s) = {t. \<exists>w\<in>lang r. s = w @ t}"
proof (induction r arbitrary: s)
  case (Str w)
  show ?case by (auto simp: append_eq_conv_conj) (metis append_take_drop_id)
next
  case (Cls rs)
  show ?case by (cases s) auto
next
  case Bol
  then show ?case by simp
next
  case (Seq a b)
  then have a: "\<And>s. set (ms n a s) = {t. \<exists>w\<in>lang a. s = w @ t}"
    and b: "\<And>s. set (ms n b s) = {t. \<exists>w\<in>lang b. s = w @ t}" by auto
  show ?case
  proof (intro set_eqI iffI)
    fix t assume "t \<in> set (ms n (Seq a b) s)"
    then obtain s' where "s' \<in> set (ms n a s)" "t \<in> set (ms n b s')" by auto
    then obtain u v where "u \<in> lang a" "s = u @ s'" "v \<in> lang b" "s' = v @ t"
      using a b by auto
    then have "u @ v \<in> lang (Seq a b)" "s = (u @ v) @ t" by auto
    then show "t \<in> {t. \<exists>w\<in>lang (Seq a b). s = w @ t}" by blast
  next
    fix t assume "t \<in> {t. \<exists>w\<in>lang (Seq a b). s = w @ t}"
    then obtain u v where uv: "u \<in> lang a" "v \<in> lang b" "s = (u @ v) @ t" by auto
    then have "v @ t \<in> set (ms n a s)" "t \<in> set (ms n b (v @ t))" using a b by auto
    then show "t \<in> set (ms n (Seq a b) s)" by auto
  qed
next
  case (Opt a)
  then show ?case by auto
next
  case (Rep lo hi a)
  then have "\<And>s. set (ms n a s) = {t. \<exists>w\<in>lang a. s = w @ t}" by simp
  from ms_Rep_lang[OF this] show ?case by auto
next
  case (Plus a)
  then have a: "\<And>s. set (ms n a s) = {t. \<exists>w\<in>lang a. s = w @ t}" by simp
  show ?case
  proof (intro set_eqI iffI)
    fix t assume "t \<in> set (ms n (Plus a) s)"
    from ms_Plus_sound[OF a this] show "t \<in> {t. \<exists>w\<in>lang (Plus a). s = w @ t}" by simp
  next
    fix t assume "t \<in> {t. \<exists>w\<in>lang (Plus a). s = w @ t}"
    then obtain k w where "k \<ge> 1" "w \<in> pow (lang a) k" "s = w @ t" by auto
    with ms_Plus_complete[OF a] show "t \<in> set (ms n (Plus a) s)" by blast
  qed
qed

declare findall_from.simps [simp del]

lemma ms_Cons_lang:
  assumes "bol_free r" "ms n r s = t # ts"
  shows "\<exists>w. w \<in> lang r \<and> s = w @ t"
proof -
  have "t \<in> set (ms n r s)" using assms(2) by simp
  then show ?thesis using ms_lang[OF assms(1), of n s] by auto
qed

lemma ms_Nil_iff:
  assumes "bol_free r"
  shows "ms n r s = [] \<longleftrightarrow> \<not> (\<exists>w t. w \<in> lang r \<and> s = w @ t)"
proof -
  have "ms n r s = [] \<longleftrightarrow> set (ms n r s) = {}" by simp
  also have "\<dots> \<longleftrightarrow> \<not> (\<exists>w t. w \<in> lang r \<and> s = w @ t)"
    unfolding ms_lang[OF assms] by auto
  finally show ?thesis .
qed

lemma contains_match_iff:
  assumes "bol_free r"
  shows "contains_match r s \<longleftrightarrow> (\<exists>k\<le>length s. ms n r (drop k s) \<noteq> [])"
proof
  assume "contains_match r s"
  then obtain pre w post where s: "s = pre @ w @ post" and w: "w \<in> lang r"
    unfolding contains_match_def by blast
  have "drop (length pre) s = w @ post" using s by simp
  then have "ms n r (drop (length pre) s) \<noteq> []" using ms_Nil_iff[OF assms, of n] w by metis
  moreover have "length pre \<le> length s" using s by simp
  ultimately show "\<exists>k\<le>length s. ms n r (drop k s) \<noteq> []" by blast
next
  assume "\<exists>k\<le>length s. ms n r (drop k s) \<noteq> []"
  then obtain k where k: "k \<le> length s" "ms n r (drop k s) \<noteq> []" by blast
  then obtain w t where "w \<in> lang r" "drop k s = w @ t" using ms_Nil_iff[OF assms, of n] by metis
  then have "s = take k s @ w @ t" "w \<in> lang r" by (metis append_take_drop_id)+
  then show "contains_match r s" unfolding contains_match_def by blast
qed

lemma findall_from_Nil_iff:
  "findall_from n r s = [] \<longleftrightarrow> (\<forall>k\<le>length s. ms n r (drop k s) = [])"
proof (induction s)
  case Nil
  show ?case by (subst findall_from.simps) (auto split: list.splits simp: Let_def)
next
  case (Cons c cs)
  have "findall_from n r (c # cs) = [] \<longleftrightarrow> ms n r (c # cs) = [] \<and> findall_from n r cs = []"
    by (subst findall_from.simps) (auto split: list.splits simp: Let_def)
  also have "\<dots> \<longleftrightarrow> ms n r (c # cs) = [] \<and> (\<forall>k\<le>length cs. ms n r (drop k cs) = [])"
    using Cons.IH by simp
  also have "\<dots> \<longleftrightarrow> (\<forall>k\<le>length (c # cs). ms n r (drop k (c # cs)) = [])"
  proof
    assume a: "ms n r (c # cs) = [] \<and> (\<forall>k\<le>length cs. ms n r (drop k cs) = [])"
    show "\<forall>k\<le>length (c # cs). ms n r (drop k (c # cs)) = []"
    proof (intro allI impI)
      fix k assume "k \<le> length (c # cs)"
      then show "ms n r (drop k (c # cs)) = []" using a by (cases k) auto
    qed
  next
    assume a: "\<forall>k\<le>length (c # cs). ms n r (drop k (c # cs)) = []"
    have "ms n r (c # cs) = []" using a[rule_format, of 0] by simp
    moreover have "\<forall>k\<le>length cs. ms n r (drop k cs) = []"
    proof (intro allI impI)
      fix k assume "k \<le> length cs"
      then show "ms n r (drop k cs) = []" using a[rule_format, of "Suc k"] by simp
    qed
    ultimately show "ms n r (c # cs) = [] \<and> (\<forall>k\<le>length cs. ms n r (drop k cs) = [])" by simp
  qed
  finally show ?case .
qed

lemma findall_Nil_iff:
  assumes "bol_free r"
  shows "findall r s = [] \<longleftrightarrow> \<not> contains_match r s"
  unfolding findall_def findall_from_Nil_iff contains_match_iff[OF assms, of s "length s"]
  by blast

lemma findall_from_first:
  assumes "bol_free r"
  shows "findall_from n r s = m # rest \<Longrightarrow>
    \<exists>pre post. s = pre @ m @ post \<and> m \<in> lang r \<and> (\<forall>k<length pre. ms n r (drop k s) = [])"
proof (induction s)
  case Nil
  from Nil obtain t ts where t: "ms n r [] = t # ts"
    by (subst (asm) findall_from.simps) (auto split: list.splits)
  then obtain w where w: "w \<in> lang r" "[] = w @ t" using ms_Cons_lang[OF assms] by blast
  then have "m = []" using Nil t
    by (subst (asm) findall_from.simps) (auto split: list.splits simp: Let_def)
  then show ?case using w by auto
next
  case (Cons c cs)
  show ?case
  proof (cases "ms n r (c # cs)")
    case Nil
    then have "findall_from n r cs = m # rest" using Cons.prems
      by (subst (asm) findall_from.simps) simp
    from Cons.IH[OF this] obtain pre post where
      p: "cs = pre @ m @ post" "m \<in> lang r" "\<forall>k<length pre. ms n r (drop k cs) = []" by blast
    have "\<forall>k<length (c # pre). ms n r (drop k (c # cs)) = []"
    proof (intro allI impI)
      fix k assume "k < length (c # pre)"
      then show "ms n r (drop k (c # cs)) = []" using Nil p(3) by (cases k) auto
    qed
    moreover have "c # cs = (c # pre) @ m @ post" using p(1) by simp
    ultimately show ?thesis using p(2) by blast
  next
    case (Cons t ts)
    then obtain w where w: "w \<in> lang r" "c # cs = w @ t" using ms_Cons_lang[OF assms] by blast
    have "m = take (length (c # cs) - length t) (c # cs)" using Cons.prems Cons
      by (subst (asm) findall_from.simps) (auto simp: Let_def split: if_splits)
    then have "m = w" using w(2) by simp
    then have "c # cs = [] @ m @ t" using w by simp
    then show ?thesis using w(1) \<open>m = w\<close> by (metis length_greater_0_conv less_nat_zero_code list.size(3))
  qed
qed

lemma findall_first_match:
  assumes "bol_free r" "findall r s = m # rest"
  shows "first_match r s m"
proof -
  from findall_from_first[OF assms(1) assms(2)[unfolded findall_def]] obtain pre post where
    p: "s = pre @ m @ post" "m \<in> lang r" "\<forall>k<length pre. ms (length s) r (drop k s) = []"
    by blast
  have "\<forall>k<length pre. \<not> (\<exists>w t. w \<in> lang r \<and> drop k s = w @ t)"
    using p(3) ms_Nil_iff[OF assms(1), of "length s"] by blast
  then show ?thesis unfolding first_match_def using p(1,2) by blast
qed

lemma bol_free_DOMAIN_PATTERN: "bol_free DOMAIN_PATTERN"
  by (simp add: DOMAIN_PATTERN_def)

lemma in_lang_iff:
  assumes "bol_free r"
  shows "s \<in> lang r \<longleftrightarrow> [] \<in> set (ms n r s)"
  unfolding ms_lang[OF assms] by auto


lemma findall_google_com: "findall DOMAIN_PATTERN ''google.com'' = []"
  by code_simp

lemma ms_google_com_dot: "[] \<notin> set (ms 18 DOMAIN_PATTERN ''http://google.com.'')"
  by code_simp

lemma not_lang_google_com_dot: "''http://google.com.'' \<notin> lang DOMAIN_PATTERN"
  using ms_google_com_dot in_lang_iff[OF bol_free_DOMAIN_PATTERN, of "''http://google.com.''" 18]
  by simp

lemma Mapper_init_google_com_dot:
  "Mapper_init ''http://google.com.'' 2 (1 / 2) =
     Inr \<lparr>domain = ''http://google.com'', max_depth = 2, rate_limit = 1 / 2,
          visited = {||}, all_links = {||}\<rparr>"
  by code_simp


section \<open>Invariants of the crawl\<close>

declare crawl.simps [simp del]
declare crawl_links.simps(2) [simp del]

lemma crawl_derivation:
  "crawls E m url depth (crawl E m url depth)"
  "crawls_links E m links depth (crawl_links E m links depth)"
proof (induction E m url depth and E m links depth rule: crawl_crawl_links.induct)
  case (1 E m url depth)
  let ?m1 = "m\<lparr>visited := finsert url (visited m)\<rparr>"
  show ?case
  proof (cases "depth > max_depth m \<or> url |\<in>| visited m")
    case True
    then show ?thesis by (auto simp: crawl.simps intro: crawls_crawls_links.skip)
  next
    case False
    then have g: "\<not> depth > max_depth m" "url |\<notin>| visited m" by auto
    show ?thesis
    proof (cases "console E (''Visitando: [blue]'' @ url @ ''[/blue]'')")
      case (Some e)
      have "crawl E m url depth = (?m1, Some e)" using g Some by (simp add: crawl.simps)
      then show ?thesis using crawls_crawls_links.log_error[OF g Some] by simp
    next
      case None
      show ?thesis
      proof (cases "get_page E url")
        case (Inl e)
        have "crawl E m url depth = (?m1, Some e)" using g None Inl by (simp add: crawl.simps)
        then show ?thesis using crawls_crawls_links.page_error[OF g None Inl] by simp
      next
        case (Inr html)
        have "crawls_links E ?m1 (clean_links E (find_links html)) depth
            (crawl_links E ?m1 (clean_links E (find_links html)) depth)"
          using 1[OF g refl None Inr refl refl] .
        moreover have "crawl E m url depth =
            crawl_links E ?m1 (clean_links E (find_links html)) depth"
          using g None Inr by (simp add: crawl.simps)
        ultimately show ?thesis using crawls_crawls_links.enter[OF g None Inr] by simp
      qed
    qed
  qed
next
  case (2 E m depth)
  show ?case by (simp add: crawls_crawls_links.finish)
next
  case (3 E m link rest depth)
  show ?case
  proof (cases "urljoin E (domain m) link")
    case (Inl e)
    then show ?thesis by (simp add: crawl_links.simps crawls_crawls_links.join_error)
  next
    case (Inr a)
    show ?thesis
    proof (cases "is_valid_url E m a")
      case (Inl e)
      then show ?thesis using Inr
        by (simp add: crawl_links.simps crawls_crawls_links.valid_error)
    next
      case valid: (Inr ok)
      show ?thesis
      proof (cases "ok \<and> a |\<notin>| visited m")
        case False
        have "crawls_links E m rest depth (crawl_links E m rest depth)"
          using 3(3)[OF Inr valid False] .
        then have "crawls_links E m (link # rest) depth (crawl_links E m rest depth)"
          using crawls_crawls_links.pass[OF Inr valid False] by blast
        moreover have "crawl_links E m (link # rest) depth = crawl_links E m rest depth"
          using Inr valid False by (auto simp: crawl_links.simps)
        ultimately show ?thesis by simp
      next
        case True
        then have v: "is_valid_url E m a = Inr True" and nv: "a |\<notin>| visited m"
          using valid by auto
        obtain m2 r where c:
          "crawl E (m\<lparr>all_links := finsert a (all_links m)\<rparr>) a (depth + 1) = (m2, r)"
          by (cases "crawl E (m\<lparr>all_links := finsert a (all_links m)\<rparr>) a (depth + 1)")
        have d1: "crawls E (m\<lparr>all_links := finsert a (all_links m)\<rparr>) a (depth + 1) (m2, r)"
          using 3(1)[OF Inr valid True] c by simp
        show ?thesis
        proof (cases r)
          case None
          show ?thesis
          proof (cases "rate_limit_wait E m2")
            case wait: None
            have "crawls_links E m2 rest depth (crawl_links E m2 rest depth)"
              using 3(2)[OF Inr valid True c[symmetric] None wait] .
            then have "crawls_links E m (link # rest) depth (crawl_links E m2 rest depth)"
              using crawls_crawls_links.follow[OF Inr v nv _ wait] d1 None by blast
            moreover have "crawl_links E m (link # rest) depth = crawl_links E m2 rest depth"
              using Inr valid True c None wait by (simp add: crawl_links.simps)
            ultimately show ?thesis by simp
          next
            case (Some e)
            have "crawls_links E m (link # rest) depth (m2, Some e)"
              using crawls_crawls_links.wait_error[OF Inr v nv _ Some] d1 None by blast
            moreover have "crawl_links E m (link # rest) depth = (m2, Some e)"
              using Inr valid True c None Some by (simp add: crawl_links.simps)
            ultimately show ?thesis by simp
          qed
        next
          case (Some e)
          have "crawls_links E m (link # rest) depth (m2, Some e)"
            using crawls_crawls_links.follow_error[OF Inr v nv] d1 Some by blast
          moreover have "crawl_links E m (link # rest) depth = (m2, Some e)"
            using Inr valid True c Some by (simp add: crawl_links.simps)
          ultimately show ?thesis by simp
        qed
      qed
    qed
  qed
qed

lemma crawls_extends:
  "crawls E m url depth res \<Longrightarrow> extends m (fst res)"
  "crawls_links E m links depth res \<Longrightarrow> extends m (fst res)"
  by (induction rule: crawls_crawls_links.inducts) (auto simp: extends_def)

lemma crawls_visited_discovered:
  "crawls E m url depth res \<Longrightarrow>
     visited (fst res) |\<subseteq>| finsert url (visited m |\<union>| all_links (fst res))"
  "crawls_links E m links depth res \<Longrightarrow>
     visited (fst res) |\<subseteq>| visited m |\<union>| all_links (fst res)"
proof (induction rule: crawls_crawls_links.inducts)
  case (follow E m link a depth m2 rest res)
  have "all_links m2 |\<subseteq>| all_links (fst res)"
    using crawls_extends(2)[OF follow(6)] by (simp add: extends_def)
  moreover have "a |\<in>| all_links m2"
    using crawls_extends(1)[OF follow(4)] by (auto simp: extends_def)
  ultimately show ?case using follow.IH by auto
next
  case (follow_error E m link a depth m2 e rest)
  have "a |\<in>| all_links m2"
    using crawls_extends(1)[OF follow_error(4)] by (auto simp: extends_def)
  then show ?case using follow_error.IH by auto
next
  case (wait_error E m link a depth m2 e rest)
  have "a |\<in>| all_links m2"
    using crawls_extends(1)[OF wait_error(4)] by (auto simp: extends_def)
  then show ?case using wait_error.IH by auto
qed auto

lemma crawls_discovered_fresh:
  "crawls E m url depth res \<Longrightarrow> all_links (fst res) |\<inter>| visited m |\<subseteq>| all_links m"
  "crawls_links E m links depth res \<Longrightarrow> all_links (fst res) |\<inter>| visited m |\<subseteq>| all_links m"
proof (induction rule: crawls_crawls_links.inducts)
  case (follow E m link a depth m2 rest res)
  have "visited m |\<subseteq>| visited m2"
    using crawls_extends(1)[OF follow(4)] by (simp add: extends_def)
  then show ?case using follow.IH follow(3) by auto
next
  case (follow_error E m link a depth m2 e rest)
  then show ?case by auto
next
  case (wait_error E m link a depth m2 e rest)
  then show ?case by auto
qed auto

lemma crawls_visits:
  "crawls E m url depth res \<Longrightarrow> depth \<le> max_depth m \<Longrightarrow> url |\<in>| visited (fst res)"
proof (cases "url |\<in>| visited m")
  case True
  assume "crawls E m url depth res"
  from crawls_extends(1)[OF this] True show ?thesis by (auto simp: extends_def)
next
  case False
  assume c: "crawls E m url depth res" and d: "depth \<le> max_depth m"
  from c show ?thesis
  proof (cases rule: crawls.cases)
    case skip
    then show ?thesis using False d by auto
  next
    case log_error
    then show ?thesis by simp
  next
    case page_error
    then show ?thesis by simp
  next
    case enter
    from crawls_extends(2)[OF enter(5)] show ?thesis by (auto simp: extends_def)
  qed
qed

lemma crawl_result:
  "crawl E m url depth = (m', r) \<Longrightarrow> crawls E m url depth (m', r)"
  using crawl_derivation(1)[of E m url depth] by simp

lemma sorted_sorted_list_of_fset: "sorted (sorted_list_of_fset S)"
  by (simp add: sorted_list_of_fset.rep_eq)

lemma distinct_sorted_list_of_fset: "distinct (sorted_list_of_fset S)"
  by (simp add: sorted_list_of_fset.rep_eq)

lemma length_sorted_list_of_fset: "length (sorted_list_of_fset S) = fcard S"
  using distinct_card[OF distinct_sorted_list_of_fset, of S] by (simp add: fcard.rep_eq)

lemma set_to_list_Nil: "set_to_list E [] = []"
  by (simp add: set_to_list_def)

lemma clean_links_Nil: "clean_links E [] = []"
  by (simp add: clean_links_def set_to_list_Nil)

subsection \<open>The example site, evaluated\<close>

lemma Mapper_init_example: "Mapper_init ''http://host.com'' 1 (1 / 2) = Inr example_mapper"
  by code_simp

lemma map_web_site_example:
  "map_web_site example_site example_mapper =
     (\<lparr>domain = ''http://host.com'', max_depth = 1, rate_limit = 1 / 2,
       visited = {|''http://host.com'', ''http://host.com/a'', ''http://host.com/b''|},
       all_links = {|''http://host.com/a'', ''http://host.com/b'', ''http://host.com/c''|}\<rparr>,
      Inr [''http://host.com/a'', ''http://host.com/b'', ''http://host.com/c''])"
  by code_simp

lemma example_seed_links:
  "get_page example_site ''http://host.com'' = Inr [Some ''/a'', Some ''/b'']"
  "clean_links example_site (find_links [Some ''/a'', Some ''/b'']) = [''/a'', ''/b'']"
  by code_simp+

lemma example_followable:
  "urljoin example_site ''http://host.com'' ''/a'' = Inr ''http://host.com/a''"
  "urljoin example_site ''http://host.com'' ''/b'' = Inr ''http://host.com/b''"
  "is_valid_url example_site example_mapper ''http://host.com/a'' = Inr True"
  "is_valid_url example_site example_mapper ''http://host.com/b'' = Inr True"
  by code_simp+

lemma example_cards:
  "fcard {|''http://host.com'', ''http://host.com/a'', ''http://host.com/b''|} = 3"
  "fcard {|''http://host.com/a'', ''http://host.com/b'', ''http://host.com/c''|} = 3"
  by code_simp+

lemma map_web_site_deep:
  "map_web_site deep_site (example_mapper\<lparr>max_depth := 5\<rparr>) =
     (\<lparr>domain = ''http://host.com'', max_depth = 5, rate_limit = 1 / 2,
       visited = {|''http://host.com'', ''http://host.com/1'', ''http://host.com/2''|},
       all_links = {|''http://host.com/1'', ''http://host.com/2''|}\<rparr>,
      Inl (RecursionError ''maximum recursion depth exceeded''))"
  by code_simp

lemma map_web_site_offline:
  "map_web_site offline_site example_mapper =
     (example_mapper\<lparr>visited := {|''http://host.com''|}\<rparr>, Inr [])"
  by code_simp

subsection \<open>A failed fetch\<close>

text \<open>
  Where the console prints its two lines without raising, a page whose fetch fails
  yields no links, and \<open>crawl\<close> on it returns without an exception, having marked the
  URL visited. Then \<open>map_web_site\<close> on a fresh \<open>Mapper\<close> with a non-negative
  \<open>max_depth\<close> whose seed fetch fails returns the empty sequence, with the seed
  visited and no link discovered.
\<close>

lemma fetch_failure_recovered:
  assumes "requests_get E url = RequestException msg"
    and "console E (''Visitando: [blue]'' @ url @ ''[/blue]'') = None"
    and "console E (''[red]Erro ao acessar '' @ url @ '':[/red] '' @ msg) = None"
  shows "get_page E url = Inr []"
    and "crawl E m url depth =
           (if depth > max_depth m \<or> url |\<in>| visited m then m
            else m\<lparr>visited := finsert url (visited m)\<rparr>, None)"
    and "url = domain m \<Longrightarrow> 0 \<le> max_depth m \<Longrightarrow> visited m = {||} \<Longrightarrow> all_links m = {||} \<Longrightarrow>
           map_web_site E m = (m\<lparr>visited := {|domain m|}\<rparr>, Inr [])"
proof -
  show p: "get_page E url = Inr []" using assms(1,3) by (simp add: get_page_def)
  show c: "crawl E m url depth =
           (if depth > max_depth m \<or> url |\<in>| visited m then m
            else m\<lparr>visited := finsert url (visited m)\<rparr>, None)" for m depth
    using assms(2) p by (simp add: crawl.simps find_links_def clean_links_Nil)
  show "map_web_site E m = (m\<lparr>visited := {|domain m|}\<rparr>, Inr [])"
    if "url = domain m" "0 \<le> max_depth m" "visited m = {||}" "all_links m = {||}"
    using that c[where m = m and depth = 0]
    by (simp add: map_web_site_def sorted_list_of_fset.rep_eq)
qed

subsection \<open>Cleaning links; parsing the example URLs\<close>

lemma re_match_LINK_PATTERN:
  "re_match LINK_PATTERN l \<noteq> None \<longleftrightarrow> l \<noteq> [] \<and> hd l = CHR ''/''"
  by (cases l) (auto simp: re_match_def LINK_PATTERN_def)

lemma re_match_LINK_PATTERN_ex:
  "(\<exists>y. re_match LINK_PATTERN l = Some y) \<longleftrightarrow> l \<noteq> [] \<and> hd l = CHR ''/''"
  using re_match_LINK_PATTERN[of l] by auto

lemma set_set_to_list: "set (set_to_list E xs) = set xs"
  by (simp add: set_to_list_def)

lemma distinct_set_to_list: "distinct (set_to_list E xs)"
  by (simp add: set_to_list_def)

lemma length_set_to_list: "distinct xs \<Longrightarrow> length (set_to_list E xs) = length xs"
  by (simp add: set_to_list_def)

lemma set_clean_links:
  "set (clean_links E links) = {l \<in> set links. l \<noteq> [] \<and> hd l = CHR ''/''}"
  by (auto simp: clean_links_def set_set_to_list re_match_LINK_PATTERN_ex)


section \<open>The stored domain and its trailing-slash spelling\<close>

lemma pow_alphabet: "w \<in> pow L k \<Longrightarrow> \<forall>u\<in>L. set u \<subseteq> A \<Longrightarrow> set w \<subseteq> A"
  by (induction k arbitrary: w) fastforce+

lemma lang_alphabet: "w \<in> lang r \<Longrightarrow> set w \<subseteq> alphabet r"
proof (induction r arbitrary: w)
  case (Rep lo hi a)
  then show ?case using pow_alphabet[of w "lang a" _ "alphabet a"] by auto
next
  case (Plus a)
  then show ?case using pow_alphabet[of w "lang a" _ "alphabet a"] by auto
next
  case (Seq a b)
  then show ?case by fastforce
qed auto

lemma pow_nonempty: "w \<in> pow L k \<Longrightarrow> k \<ge> 1 \<Longrightarrow> [] \<notin> L \<Longrightarrow> w \<noteq> []"
  by (cases k) auto

lemma host_char_not_delim:
  assumes "host_char c"
  shows "c \<noteq> CHR ''/''" "c \<noteq> CHR ''?''" "c \<noteq> CHR ''#''" "c \<noteq> CHR ''[''" "c \<noteq> CHR '']''"
    "\<not> unsafe_url_byte c"
  using assms by (auto simp: host_char_def host_chars_def unsafe_url_byte_def)

lemma lang_Seq_iff: "w \<in> lang (Seq a b) \<longleftrightarrow> (\<exists>u v. w = u @ v \<and> u \<in> lang a \<and> v \<in> lang b)"
  by auto

lemma lang_Str_iff: "w \<in> lang (Str s) \<longleftrightarrow> w = s"
  by simp

lemma lang_Opt_Str_iff: "w \<in> lang (Opt (Str s)) \<longleftrightarrow> (w = [] \<or> w = s)"
  by auto

lemma lang_DOMAIN_PATTERN_shape:
  assumes "m0 \<in> lang DOMAIN_PATTERN"
  shows "\<exists>sch body sl. m0 = sch @ ''://'' @ body @ sl \<and> (sch = ''http'' \<or> sch = ''https'') \<and>
           body \<noteq> [] \<and> (\<forall>c\<in>set body. host_char c) \<and> (sl = [] \<or> sl = ''/'')"
proof -
  let ?H = "Rep 1 63 (Cls host_chars)"
  let ?G = "Plus (Seq (Str ''.'') (Rep 2 6 (Cls alpha_chars)))"
  have "\<exists>s1 w1 h g sl. m0 = ''http'' @ s1 @ ''://'' @ w1 @ h @ g @ sl \<and>
      (s1 = [] \<or> s1 = ''s'') \<and> (w1 = [] \<or> w1 = ''www.'') \<and>
      h \<in> lang ?H \<and> g \<in> lang ?G \<and> (sl = [] \<or> sl = ''/'')"
    using assms unfolding DOMAIN_PATTERN_def
    by (simp only: lang_Seq_iff lang_Str_iff lang_Opt_Str_iff) blast
  then obtain s1 w1 h g sl where
    m0: "m0 = ''http'' @ s1 @ ''://'' @ w1 @ h @ g @ sl" and
    s1: "s1 = [] \<or> s1 = ''s''" and w1: "w1 = [] \<or> w1 = ''www.''" and
    h: "h \<in> lang ?H" and g: "g \<in> lang ?G" and sl: "sl = [] \<or> sl = ''/''"
    by blast
  have hc: "\<forall>c\<in>set h. host_char c"
    using lang_alphabet[OF h] by (auto simp: host_char_def)
  have gc: "\<forall>c\<in>set g. host_char c"
    using lang_alphabet[OF g] by (auto simp: host_char_def host_chars_def alpha_chars_def)
  have wc: "\<forall>c\<in>set w1. host_char c"
    using w1 by (auto simp: host_char_def host_chars_def)
  have "[] \<notin> lang (Seq (Str ''.'') (Rep 2 6 (Cls alpha_chars)))" by (simp del: lang.simps(6,7))
  then have gne: "g \<noteq> []" using g pow_nonempty by auto
  let ?sch = "''http'' @ s1" and ?body = "w1 @ h @ g"
  have "m0 = ?sch @ ''://'' @ ?body @ sl" using m0 by simp
  moreover have "?sch = ''http'' \<or> ?sch = ''https''" using s1 by auto
  moreover have "?body \<noteq> []" using gne by simp
  moreover have "\<forall>c\<in>set ?body. host_char c" using hc gc wc by auto
  ultimately show ?thesis using sl by blast
qed

lemma strip_slash_shape:
  assumes "sch = ''http'' \<or> sch = ''https''" "body \<noteq> []" "\<forall>c\<in>set body. host_char c"
    "sl = [] \<or> sl = ''/''"
  shows "strip ''/'' (sch @ ''://'' @ body @ sl) = sch @ ''://'' @ body"
proof -
  have l: "lstrip ''/'' (sch @ ''://'' @ body @ sl) = sch @ ''://'' @ body @ sl"
    using assms(1) by (auto simp: lstrip_def)
  have "last body \<in> set body" using assms(2) by simp
  then have lb: "last body \<noteq> CHR ''/''" using assms(3) host_char_not_delim(1) by blast
  obtain b bs where b: "rev body = b # bs" using assms(2) by (cases "rev body") auto
  then have "b = last body" using assms(2) by (metis last_rev list.sel(1) rev_rev_ident hd_rev)
  then have nb: "b \<noteq> CHR ''/''" using lb by simp
  have "rev (sch @ ''://'' @ body @ sl) = rev sl @ (b # bs) @ rev (sch @ ''://'')"
    using b by simp
  moreover have "dropWhile (\<lambda>c. c \<in> set ''/'') (rev sl @ (b # bs) @ rev (sch @ ''://''))
      = (b # bs) @ rev (sch @ ''://'')"
    using assms(4) nb by auto
  ultimately have "rstrip ''/'' (sch @ ''://'' @ body @ sl) = rev ((b # bs) @ rev (sch @ ''://''))"
    unfolding rstrip_def by simp
  also have "\<dots> = sch @ ''://'' @ body" using b by (metis append_assoc rev_append rev_rev_ident)
  finally show ?thesis unfolding strip_def l .
qed

lemma split_scheme_http:
  "split_scheme (''http://'' @ rest) s0 = (''http'', ''//'' @ rest)"
  "split_scheme (''https://'' @ rest) s0 = (''https'', ''//'' @ rest)"
  by (simp_all add: split_scheme_def ascii_alpha_def alpha_chars_def scheme_char_def
      lower_char_def)

lemma split_scheme_slash: "split_scheme (CHR ''/'' # rest) s0 = (s0, CHR ''/'' # rest)"
  by (simp add: split_scheme_def ascii_alpha_def alpha_chars_def)

lemma host_filter:
  assumes "\<forall>c\<in>set body. host_char c"
  shows "filter (\<lambda>c. \<not> unsafe_url_byte c) body = body"
  using assms host_char_not_delim(6) by (simp add: filter_id_conv)

lemma host_netloc:
  assumes "\<forall>c\<in>set body. host_char c" "tail = [] \<or> tail = ''/''"
  shows "splitnetloc (''//'' @ body @ tail) 2 = (body, tail)"
proof -
  have p: "\<And>c. c \<in> set body \<Longrightarrow> c \<notin> set ''/?#''"
    using assms(1) host_char_not_delim(1,2,3) by auto
  have "takeWhile (\<lambda>c. c \<notin> set ''/?#'') (body @ tail) = body"
    using assms(2) p by (subst takeWhile_append2) auto
  moreover have "dropWhile (\<lambda>c. c \<notin> set ''/?#'') (body @ tail) = tail"
    using assms(2) p by (subst dropWhile_append2) auto
  ultimately show ?thesis by (simp add: splitnetloc_def)
qed

lemma host_brackets:
  assumes "\<forall>c\<in>set body. host_char c"
  shows "check_netloc_brackets E body = None"
proof -
  have "CHR ''['' \<notin> set body" "CHR '']'' \<notin> set body"
    using assms host_char_not_delim(4,5) by blast+
  then show ?thesis by (simp add: check_netloc_brackets_def)
qed

lemma urlsplit_domain:
  assumes sch: "sch = ''http'' \<or> sch = ''https''" and hc: "\<forall>c\<in>set body. host_char c"
    and tl: "tail = [] \<or> tail = ''/''"
  shows "urlsplit E (sch @ ''://'' @ body @ tail) [] =
           Inr \<lparr>scheme = sch, netloc = body, path = tail, query = [], fragment = []\<rparr>"
proof -
  let ?d = "sch @ ''://'' @ body @ tail"
  have 1: "filter (\<lambda>c. \<not> unsafe_url_byte c) (dropWhile c0_control_or_space ?d) = ?d"
    using sch tl host_filter[OF hc]
    by (auto simp: c0_control_or_space_def unsafe_url_byte_def)
  have 2: "split_scheme ?d [] = (sch, ''//'' @ body @ tail)"
    using sch split_scheme_http[of "body @ tail" "[]"] by auto
  have 3: "splitnetloc (''//'' @ body @ tail) 2 = (body, tail)"
    using host_netloc[OF hc tl] .
  have 4: "check_netloc_brackets E body = None" using host_brackets[OF hc] .
  have 5: "CHR ''#'' \<notin> set tail" "CHR ''?'' \<notin> set tail" using tl by auto
  show ?thesis
    unfolding urlsplit_def 1 by (simp add: 2 3 4 5 del: append.simps)
qed

lemma urlparse_domain:
  assumes sch: "sch = ''http'' \<or> sch = ''https''" and hc: "\<forall>c\<in>set body. host_char c"
    and tl: "tail = [] \<or> tail = ''/''"
  shows "urlparse E (sch @ ''://'' @ body @ tail) [] =
           Inr \<lparr>scheme = sch, netloc = body, path = tail, query = [], fragment = [],
                params = []\<rparr>"
proof -
  have "CHR '';'' \<notin> set tail" using tl by auto
  then show ?thesis
    unfolding urlparse_def urlsplit_domain[OF sch hc tl] by simp
qed

lemma urlparse_slash:
  assumes sch: "sch = ''http'' \<or> sch = ''https''"
  shows "urlparse E ''/'' sch =
           Inr \<lparr>scheme = sch, netloc = [], path = ''/'', query = [], fragment = [],
                params = []\<rparr>"
proof -
  have 1: "filter (\<lambda>c. \<not> unsafe_url_byte c)
             (rev (dropWhile c0_control_or_space (rev (dropWhile c0_control_or_space sch)))) = sch"
    using sch by (auto simp: c0_control_or_space_def unsafe_url_byte_def)
  have 2: "filter (\<lambda>c. \<not> unsafe_url_byte c) (dropWhile c0_control_or_space ''/'') = ''/''"
    by (simp add: c0_control_or_space_def unsafe_url_byte_def)
  have "urlsplit E ''/'' sch =
      Inr \<lparr>scheme = sch, netloc = [], path = ''/'', query = [], fragment = []\<rparr>"
    unfolding urlsplit_def 1 2 by (simp add: split_scheme_slash)
  then show ?thesis unfolding urlparse_def by simp
qed

lemma urljoin_domain_slash:
  assumes sch: "sch = ''http'' \<or> sch = ''https''" and hc: "\<forall>c\<in>set body. host_char c"
    and ne: "body \<noteq> []"
  shows "urljoin E (sch @ ''://'' @ body) ''/'' = Inr (sch @ ''://'' @ body @ ''/'')"
proof -
  have b: "urlparse E (sch @ ''://'' @ body) [] =
           Inr \<lparr>scheme = sch, netloc = body, path = [], query = [], fragment = [],
                params = []\<rparr>"
    using urlparse_domain[OF sch hc, of "[]" E] by simp
  have rel: "sch \<in> set uses_relative" "sch \<in> set uses_netloc"
    using sch by (auto simp: uses_relative_def uses_netloc_def)
  have nz: "sch @ ''://'' @ body \<noteq> []" by simp
  have sne: "sch \<noteq> []" using sch by auto
  show ?thesis
    unfolding urljoin_def b
    using rel ne sne
    by (simp add: urlparse_slash[OF sch] urlunparse_def urlunsplit_def
        resolve_segment_def Let_def)
qed

lemma is_valid_url_domain_slash:
  assumes sch: "sch = ''http'' \<or> sch = ''https''" and hc: "\<forall>c\<in>set body. host_char c"
    and d: "domain m = sch @ ''://'' @ body"
  shows "is_valid_url E m (sch @ ''://'' @ body @ ''/'') = Inr True"
proof -
  have b: "urlparse E (domain m) [] =
           Inr \<lparr>scheme = sch, netloc = body, path = [], query = [], fragment = [],
                params = []\<rparr>"
    using urlparse_domain[OF sch hc, of "[]" E] d by simp
  have u: "urlparse E (sch @ ''://'' @ body @ ''/'') [] =
           Inr \<lparr>scheme = sch, netloc = body, path = ''/'', query = [], fragment = [],
                params = []\<rparr>"
    using urlparse_domain[OF sch hc, of "''/''" E] by simp
  show ?thesis
    unfolding is_valid_url_def b u by (simp add: non_content_exts_def endswith_def)
qed

lemma Mapper_init_domain_shape:
  assumes "Mapper_init s md rl = Inr m"
  shows "\<exists>sch body. domain m = sch @ ''://'' @ body \<and> (sch = ''http'' \<or> sch = ''https'') \<and>
           body \<noteq> [] \<and> (\<forall>c\<in>set body. host_char c)"
    and "max_depth m = md" and "visited m = {||}" and "all_links m = {||}"
proof -
  from assms obtain m0 rest where f: "findall DOMAIN_PATTERN s = m0 # rest"
    and m: "m = \<lparr>domain = strip ''/'' m0, max_depth = md, rate_limit = rl,
                 visited = {||}, all_links = {||}\<rparr>"
    by (auto simp: Mapper_init_def split: list.splits)
  from m show "max_depth m = md" "visited m = {||}" "all_links m = {||}" by simp_all
  have "m0 \<in> lang DOMAIN_PATTERN"
    using findall_first_match[OF bol_free_DOMAIN_PATTERN f] by (auto simp: first_match_def)
  from lang_DOMAIN_PATTERN_shape[OF this] obtain sch body sl where
    s: "m0 = sch @ ''://'' @ body @ sl" "sch = ''http'' \<or> sch = ''https''" "body \<noteq> []"
       "\<forall>c\<in>set body. host_char c" "sl = [] \<or> sl = ''/''" by blast
  have "domain m = sch @ ''://'' @ body"
    using m strip_slash_shape[OF s(2,3,4,5)] s(1) by simp
  then show "\<exists>sch body. domain m = sch @ ''://'' @ body \<and> (sch = ''http'' \<or> sch = ''https'') \<and>
           body \<noteq> [] \<and> (\<forall>c\<in>set body. host_char c)"
    using s by blast
qed

lemma is_valid_url_domain_cong:
  "domain m' = domain m \<Longrightarrow> is_valid_url E m' url = is_valid_url E m url"
  by (auto simp: is_valid_url_def split: sum.splits)

lemma crawls_links_processed:
  "crawls E m url depth res \<Longrightarrow> True"
  "crawls_links E m links depth res \<Longrightarrow> snd res = None \<Longrightarrow> link \<in> set links \<Longrightarrow>
     urljoin E (domain m) link = Inr a \<Longrightarrow> is_valid_url E m a = Inr True \<Longrightarrow>
     (a |\<in>| visited (fst res) \<or> a |\<in>| all_links (fst res)) \<and>
     (depth + 1 \<le> max_depth m \<longrightarrow> a |\<in>| visited (fst res))"
proof (induction rule: crawls_crawls_links.inducts)
  case (pass E m link' a' ok rest depth res)
  show ?case
  proof (cases "link = link'")
    case True
    then have "a' = a" "ok" using pass by auto
    then have "a |\<in>| visited m" using pass(3) by simp
    then show ?thesis using crawls_extends(2)[OF pass(4)] by (auto simp: extends_def)
  next
    case False
    then show ?thesis using pass by auto
  qed
next
  case (follow E m link' a' depth m2 rest res)
  have e1: "extends (m\<lparr>all_links := finsert a' (all_links m)\<rparr>) m2"
    using crawls_extends(1)[OF follow(4)] by simp
  have e2: "extends m2 (fst res)" using crawls_extends(2)[OF follow(6)] .
  show ?case
  proof (cases "link = link'")
    case True
    then have aa: "a' = a" using follow by auto
    have "a |\<in>| all_links (fst res)" using e1 e2 aa by (auto simp: extends_def)
    moreover have "a |\<in>| visited (fst res)" if "depth + 1 \<le> max_depth m"
    proof -
      have "a |\<in>| visited m2" using crawls_visits[OF follow(4)] that aa by simp
      then show ?thesis using e2 by (auto simp: extends_def)
    qed
    ultimately show ?thesis by blast
  next
    case False
    then have "link \<in> set rest" using follow.prems by simp
    moreover have "domain m2 = domain m" "max_depth m2 = max_depth m"
      using e1 by (simp_all add: extends_def)
    moreover have "is_valid_url E m2 a = Inr True"
      using follow.prems is_valid_url_domain_cong[OF \<open>domain m2 = domain m\<close>] by simp
    ultimately show ?thesis using follow.IH(2) follow.prems by simp
  qed
qed simp_all

lemma set_find_links: "set (find_links page) = {href. Some href \<in> set page}"
  by (auto simp: find_links_def split: option.splits)

lemma map_web_site_slash:
  "map_web_site slash_site example_mapper =
     (\<lparr>domain = ''http://host.com'', max_depth = 1, rate_limit = 1 / 2,
       visited = {|''http://host.com'', ''http://host.com/''|},
       all_links = {|''http://host.com/''|}\<rparr>,
      Inr [''http://host.com/''])"
  by code_simp

section \<open>The first match is the longest\<close>












































section \<open>The claims\<close>

text \<open>
  One subsection for each claim about the program: the statement, its theorem, and
  the theorem applied to a concrete input. Where a claim fails as it is worded, the
  input on which it fails is a theorem too, and the statement proved is the amended
  one. Where the code breaks a claim that its own documentation makes, the theorem
  is the run of the code on the input that shows it.
\<close>

subsection \<open>C1: construction rejects what the pattern does not find\<close>

text \<open>
  C1, as amended. \<open>Mapper.__init__\<close> searches the argument with \<open>findall\<close>: for
  every string that has no substring matching the domain pattern, and every
  \<open>max_depth\<close> and \<open>rate_limit\<close>, construction raises \<open>MapperURLInvalidError\<close> with
  the fixed message.
\<close>

theorem Mapper_init_no_match:
  assumes "\<not> contains_match DOMAIN_PATTERN s"
  shows "Mapper_init s md rl =
           Inl (MapperURLInvalidError
                  (''URL fornecida n'' @ [CHR 0xE3] @ ''o '' @ [CHR 0xE9] @ '' v'' @ [CHR 0xE1]
                     @ ''lida.''))"
proof -
  have "findall DOMAIN_PATTERN s = []"
    using assms findall_Nil_iff[OF bol_free_DOMAIN_PATTERN] by simp
  then show ?thesis by (simp add: Mapper_init_def MapperURLInvalidError_init_def)
qed

theorem Mapper_init_no_match_witness:
  "\<not> contains_match DOMAIN_PATTERN ''google.com'' \<and>
   Mapper_init ''google.com'' 3 1 =
     Inl (MapperURLInvalidError
            (''URL fornecida n'' @ [CHR 0xE3] @ ''o '' @ [CHR 0xE9] @ '' v'' @ [CHR 0xE1]
               @ ''lida.''))"
proof -
  have h: "\<not> contains_match DOMAIN_PATTERN ''google.com''"
    using findall_Nil_iff[OF bol_free_DOMAIN_PATTERN, of "''google.com''"] findall_google_com
    by simp
  show ?thesis using h Mapper_init_no_match[OF h, of 3 1] by simp
qed

text \<open>
  C1 as stated fails: \<open>http://google.com.\<close> does not match the pattern as a whole,
  and construction succeeds on it.
\<close>

theorem Mapper_init_anchored_counterexample:
  "''http://google.com.'' \<notin> lang DOMAIN_PATTERN \<and>
   Mapper_init ''http://google.com.'' 2 (1 / 2) =
     Inr \<lparr>domain = ''http://google.com'', max_depth = 2, rate_limit = 1 / 2,
          visited = {||}, all_links = {||}\<rparr>"
  using not_lang_google_com_dot Mapper_init_google_com_dot by simp

subsection \<open>C2: the result of \<open>map_web_site\<close>\<close>

text \<open>
  C2, as amended. Whenever \<open>map_web_site\<close> returns, the crawl has ended without an
  exception, and the sequence returned is sorted in ascending lexicographic order,
  has no repeated element, and has exactly the members of \<open>all_links\<close> in the state
  the crawl leaves.
\<close>

theorem map_web_site_sorted:
  assumes "map_web_site E m = (m', Inr xs)"
  shows "crawl E m (domain m) 0 = (m', None) \<and>
         sorted xs \<and> distinct xs \<and> set xs = fset (all_links m') \<and>
         length xs = fcard (all_links m')"
proof -
  have c: "crawl E m (domain m) 0 = (m', None)"
    and xs: "xs = sorted_list_of_fset (all_links m')"
    using assms by (auto simp: map_web_site_def split: prod.splits option.splits)
  show ?thesis
    using c unfolding xs
    by (simp add: sorted_sorted_list_of_fset distinct_sorted_list_of_fset
          length_sorted_list_of_fset)
qed

theorem map_web_site_sorted_witness:
  "map_web_site example_site example_mapper =
     (\<lparr>domain = ''http://host.com'', max_depth = 1, rate_limit = 1 / 2,
        visited = {|''http://host.com'', ''http://host.com/a'', ''http://host.com/b''|},
        all_links = {|''http://host.com/a'', ''http://host.com/b'', ''http://host.com/c''|}\<rparr>,
      Inr [''http://host.com/a'', ''http://host.com/b'', ''http://host.com/c'']) \<and>
   sorted [''http://host.com/a'', ''http://host.com/b'', ''http://host.com/c''] \<and>
   distinct [''http://host.com/a'', ''http://host.com/b'', ''http://host.com/c''] \<and>
   set [''http://host.com/a'', ''http://host.com/b'', ''http://host.com/c''] =
     fset {|''http://host.com/a'', ''http://host.com/b'', ''http://host.com/c''|} \<and>
   length [''http://host.com/a'', ''http://host.com/b'', ''http://host.com/c''] =
     fcard {|''http://host.com/a'', ''http://host.com/b'', ''http://host.com/c''|}"
proof -
  have "sorted [''http://host.com/a'', ''http://host.com/b'', ''http://host.com/c''] \<and>
    distinct [''http://host.com/a'', ''http://host.com/b'', ''http://host.com/c''] \<and>
    set [''http://host.com/a'', ''http://host.com/b'', ''http://host.com/c''] =
      fset {|''http://host.com/a'', ''http://host.com/b'', ''http://host.com/c''|} \<and>
    length [''http://host.com/a'', ''http://host.com/b'', ''http://host.com/c''] =
      fcard {|''http://host.com/a'', ''http://host.com/b'', ''http://host.com/c''|}"
    using map_web_site_sorted[OF map_web_site_example]
    by (simp del: set_simps distinct.simps sorted_wrt.simps list.size)
  then show ?thesis using map_web_site_example by blast
qed

text \<open>
  C2 as stated fails: \<open>map_web_site\<close> does not return a sequence in every state. An
  exception raised during the crawl is caught nowhere and ends the call. On a site
  whose seed page has the anchor \<open>href="//["\<close>, \<open>urljoin\<close> raises \<open>ValueError\<close>; and with
  \<open>rate_limit = -1\<close> on the example site, \<open>sleep\<close> raises \<open>ValueError\<close> after the first
  page that is followed.
\<close>

theorem map_web_site_raises_counterexample:
  "get_page bracket_site ''http://host.com'' = Inr [Some ''//[''] \<and>
   clean_links bracket_site (find_links [Some ''//['']) = [''//[''] \<and>
   urljoin bracket_site ''http://host.com'' ''//['' = Inl (ValueError ''Invalid IPv6 URL'') \<and>
   map_web_site bracket_site example_mapper =
     (example_mapper\<lparr>visited := {|''http://host.com''|}\<rparr>,
      Inl (ValueError ''Invalid IPv6 URL'')) \<and>
   map_web_site example_site (example_mapper\<lparr>rate_limit := - 1\<rparr>) =
     (\<lparr>domain = ''http://host.com'', max_depth = 1, rate_limit = - 1,
        visited = {|''http://host.com'', ''http://host.com/a''|},
        all_links = {|''http://host.com/a'', ''http://host.com/c''|}\<rparr>,
      Inl (ValueError ''sleep length must be non-negative''))"
  by code_simp

subsection \<open>C3: visited pages and discovered links\<close>

text \<open>
  C3, as amended. After \<open>map_web_site\<close> on a fresh \<open>Mapper\<close> with a non-negative
  \<open>max_depth\<close>, the seed is visited and is not a discovered link, and every other
  visited URL is a discovered link. So the visited set has one element more than
  the discovered links that were visited, and the two cardinalities differ exactly
  when the number of discovered links left unvisited is not one.
\<close>

theorem visited_vs_discovered:
  assumes "visited m = {||}" "all_links m = {||}" "0 \<le> max_depth m"
    and "map_web_site E m = (m', r)"
  shows "domain m |\<in>| visited m' \<and> domain m |\<notin>| all_links m' \<and>
         visited m' |\<subseteq>| finsert (domain m) (all_links m') \<and>
         fcard (visited m') + fcard (all_links m' |-| visited m') = fcard (all_links m') + 1 \<and>
         (fcard (visited m') \<noteq> fcard (all_links m') \<longleftrightarrow>
            fcard (all_links m' |-| visited m') \<noteq> 1)"
proof -
  obtain e where c: "crawl E m (domain m) 0 = (m', e)"
    using assms(4) by (auto simp: map_web_site_def split: prod.splits option.splits)
  then have d: "crawls E m (domain m) 0 (m', e)" by (rule crawl_result)
  have v: "domain m |\<in>| visited m'" using crawls_visits[OF d] assms(3) by simp
  have sub: "visited m' |\<subseteq>| finsert (domain m) (all_links m')"
    using crawls_visited_discovered(1)[OF d] assms(1) by simp
  have nin: "domain m |\<notin>| all_links m'"
    using d
  proof (cases rule: crawls.cases)
    case skip
    then show ?thesis using assms(2) by simp
  next
    case log_error
    then show ?thesis using assms(2) by simp
  next
    case page_error
    then show ?thesis using assms(2) by simp
  next
    case enter
    from crawls_discovered_fresh(2)[OF enter(5)] assms(2) show ?thesis by auto
  qed
  let ?V = "visited m'" and ?A = "all_links m'"
  have V: "?V = finsert (domain m) (?A |\<inter>| ?V)" using v sub by auto
  have "fcard ?V = Suc (fcard (?A |\<inter>| ?V))"
    by (subst V) (use nin in \<open>simp add: fcard_finsert_disjoint\<close>)
  moreover have "fcard ?A = fcard (?A |\<inter>| ?V) + fcard (?A |-| ?V)"
  proof -
    have "?A = (?A |\<inter>| ?V) |\<union>| (?A |-| ?V)" by auto
    then have "fcard ?A = fcard ((?A |\<inter>| ?V) |\<union>| (?A |-| ?V))" by simp
    also have "\<dots> = fcard (?A |\<inter>| ?V) + fcard (?A |-| ?V)"
      by (rule fcard_funion_disjoint) auto
    finally show ?thesis .
  qed
  ultimately have card: "fcard ?V + fcard (?A |-| ?V) = fcard ?A + 1" by simp
  then have "fcard ?V \<noteq> fcard ?A \<longleftrightarrow> fcard (?A |-| ?V) \<noteq> 1" by arith
  then show ?thesis using v nin sub card by blast
qed

theorem visited_vs_discovered_witness:
  "visited example_mapper = {||} \<and> all_links example_mapper = {||} \<and>
   0 \<le> max_depth example_mapper \<and>
   ''http://host.com'' |\<in>| visited (fst (map_web_site example_site example_mapper)) \<and>
   ''http://host.com'' |\<notin>| all_links (fst (map_web_site example_site example_mapper)) \<and>
   fcard (visited (fst (map_web_site example_site example_mapper)))
     + fcard (all_links (fst (map_web_site example_site example_mapper))
              |-| visited (fst (map_web_site example_site example_mapper)))
     = fcard (all_links (fst (map_web_site example_site example_mapper))) + 1"
proof -
  have h: "visited example_mapper = {||}" "all_links example_mapper = {||}"
    "0 \<le> max_depth example_mapper" "domain example_mapper = ''http://host.com''"
    by (simp_all add: example_mapper_def)
  show ?thesis
    using h visited_vs_discovered[OF h(1,2,3), of example_site
        "fst (map_web_site example_site example_mapper)"
        "snd (map_web_site example_site example_mapper)"]
    by simp
qed

text \<open>
  C3 as stated fails. On the example site the seed page links to the two distinct
  followable pages \<open>/a\<close> and \<open>/b\<close>, and with \<open>max_depth = 1\<close> the crawl ends with
  three visited pages and three discovered links.
\<close>

theorem visited_discovered_counterexample:
  "Mapper_init ''http://host.com'' 1 (1 / 2) = Inr example_mapper \<and>
   get_page example_site ''http://host.com'' = Inr [Some ''/a'', Some ''/b''] \<and>
   clean_links example_site (find_links [Some ''/a'', Some ''/b'']) = [''/a'', ''/b''] \<and>
   urljoin example_site ''http://host.com'' ''/a'' = Inr ''http://host.com/a'' \<and>
   urljoin example_site ''http://host.com'' ''/b'' = Inr ''http://host.com/b'' \<and>
   is_valid_url example_site example_mapper ''http://host.com/a'' = Inr True \<and>
   is_valid_url example_site example_mapper ''http://host.com/b'' = Inr True \<and>
   map_web_site example_site example_mapper =
     (\<lparr>domain = ''http://host.com'', max_depth = 1, rate_limit = 1 / 2,
        visited = {|''http://host.com'', ''http://host.com/a'', ''http://host.com/b''|},
        all_links = {|''http://host.com/a'', ''http://host.com/b'', ''http://host.com/c''|}\<rparr>,
      Inr [''http://host.com/a'', ''http://host.com/b'', ''http://host.com/c'']) \<and>
   fcard (visited (fst (map_web_site example_site example_mapper))) =
     fcard (all_links (fst (map_web_site example_site example_mapper)))"
  using Mapper_init_example example_seed_links example_followable map_web_site_example
    example_cards
  by simp

subsection \<open>C4: the in-domain and content check\<close>



subsection \<open>C5: a failed fetch\<close>

text \<open>
  C5 says that a fetch failure is recovered as a page without links and never leaves
  \<open>crawl\<close> as an error, which is what \<open>_get_page\<close> documents (an empty page if an error
  occurs). The code breaks it on this input. The handler of the
  \<open>RequestException\<close> prints the URL and the text of the exception as Rich markup,
  unescaped, and Rich raises \<open>MarkupError\<close> for a closing tag that closes no open tag.
  A server that answers the request for the seed with the status line
  \<open>HTTP/1.1 404 [/oops]\<close> makes \<open>raise_for_status\<close> raise an \<open>HTTPError\<close> with the text
  \<open>404 Client Error: [/oops] for url: http://host.com/\<close>. For
  \<open>Mapper('http://host.com', 1, 0.5)\<close> the seed is logged and requested, the handler
  raises \<open>MarkupError\<close>, and the exception leaves \<open>_get_page\<close>, \<open>crawl\<close> and
  \<open>map_web_site\<close>.
\<close>

theorem fetch_failure_markup_error:
  "requests_get markup_site ''http://host.com'' =
     RequestException ''404 Client Error: [/oops] for url: http://host.com/'' \<and>
   console markup_site ''Visitando: [blue]http://host.com[/blue]'' = None \<and>
   console markup_site
     (''[red]Erro ao acessar http://host.com:[/red] ''
        @ ''404 Client Error: [/oops] for url: http://host.com/'') =
     Some (MarkupError
        (''closing tag '' @ [CHR 0x27] @ ''[/oops]'' @ [CHR 0x27]
           @ '' at position 62 doesn'' @ [CHR 0x27] @ ''t match any open tag'')) \<and>
   get_page markup_site ''http://host.com'' =
     Inl (MarkupError
        (''closing tag '' @ [CHR 0x27] @ ''[/oops]'' @ [CHR 0x27]
           @ '' at position 62 doesn'' @ [CHR 0x27] @ ''t match any open tag'')) \<and>
   crawl markup_site example_mapper ''http://host.com'' 0 =
     (example_mapper\<lparr>visited := {|''http://host.com''|}\<rparr>,
      Some (MarkupError
        (''closing tag '' @ [CHR 0x27] @ ''[/oops]'' @ [CHR 0x27]
           @ '' at position 62 doesn'' @ [CHR 0x27] @ ''t match any open tag''))) \<and>
   map_web_site markup_site example_mapper =
     (example_mapper\<lparr>visited := {|''http://host.com''|}\<rparr>,
      Inl (MarkupError
        (''closing tag '' @ [CHR 0x27] @ ''[/oops]'' @ [CHR 0x27]
           @ '' at position 62 doesn'' @ [CHR 0x27] @ ''t match any open tag'')))"
  by code_simp

subsection \<open>C6: a call beyond the depth bound\<close>

text \<open>
  C6. For every state, URL and depth greater than \<open>max_depth\<close>, \<open>crawl\<close> returns at
  once and leaves the state as it was: the URL is not marked visited and no link is
  discovered.
\<close>

theorem crawl_over_depth:
  assumes "depth > max_depth m"
  shows "crawl E m url depth = (m, None)"
  using assms by (simp add: crawl.simps)

theorem crawl_over_depth_witness:
  "2 > max_depth example_mapper \<and>
   crawl example_site example_mapper ''http://host.com'' 2 = (example_mapper, None)"
proof -
  have h: "2 > max_depth example_mapper" by (simp add: example_mapper_def)
  show ?thesis using h crawl_over_depth[OF h, of example_site "''http://host.com''"] by simp
qed

subsection \<open>C7: the seed is not a discovered link\<close>

text \<open>
  C7. If the stored domain is not among the discovered links when \<open>map_web_site\<close> is
  called (as on a fresh \<open>Mapper\<close>), it is not among them when the call ends, and it is
  not an element of the returned sequence.
\<close>

theorem seed_not_discovered:
  assumes "domain m |\<notin>| all_links m" and "map_web_site E m = (m', r)"
  shows "domain m' = domain m \<and> domain m |\<notin>| all_links m' \<and>
         (\<forall>xs. r = Inr xs \<longrightarrow> domain m \<notin> set xs)"
proof -
  obtain e where c: "crawl E m (domain m) 0 = (m', e)"
    using assms(2) by (auto simp: map_web_site_def split: prod.splits option.splits)
  then have d: "crawls E m (domain m) 0 (m', e)" by (rule crawl_result)
  have dom: "domain m' = domain m" using crawls_extends(1)[OF d] by (simp add: extends_def)
  have nin: "domain m |\<notin>| all_links m'"
    using d
  proof (cases rule: crawls.cases)
    case skip
    then show ?thesis using assms(1) by simp
  next
    case log_error
    then show ?thesis using assms(1) by simp
  next
    case page_error
    then show ?thesis using assms(1) by simp
  next
    case enter
    from crawls_discovered_fresh(2)[OF enter(5)] assms(1) show ?thesis by auto
  qed
  have "domain m \<notin> set xs" if "r = Inr xs" for xs
  proof -
    have "xs = sorted_list_of_fset (all_links m')"
      using assms(2) that by (auto simp: map_web_site_def split: prod.splits option.splits)
    then show ?thesis using nin by simp
  qed
  then show ?thesis using dom nin by blast
qed

theorem seed_not_discovered_witness:
  "domain example_mapper |\<notin>| all_links example_mapper \<and>
   ''http://host.com'' |\<notin>| all_links (fst (map_web_site example_site example_mapper)) \<and>
   ''http://host.com'' \<notin> set [''http://host.com/a'', ''http://host.com/b'', ''http://host.com/c'']"
proof -
  have h: "domain example_mapper |\<notin>| all_links example_mapper"
    by (simp add: example_mapper_def)
  have d: "domain example_mapper = ''http://host.com''" by (simp add: example_mapper_def)
  show ?thesis
    using h d seed_not_discovered[OF h map_web_site_example] map_web_site_example by simp
qed

subsection \<open>C8: cleaning valid links\<close>

text \<open>
  C8, as amended. For every list of links, each non-empty and beginning with \<open>/\<close>,
  cleaning yields the same entries, each once: the cleaned list has as many elements
  as the list has distinct entries. It has the length of the list when the links are
  pairwise distinct.
\<close>

theorem clean_links_distinct_valid:
  assumes "\<forall>l\<in>set links. l \<noteq> [] \<and> hd l = CHR ''/''"
  shows "set (clean_links E links) = set links \<and> distinct (clean_links E links) \<and>
         length (clean_links E links) = card (set links) \<and>
         (distinct links \<longrightarrow> length (clean_links E links) = length links)"
proof -
  have f: "[link \<leftarrow> links. link \<noteq> [] \<and> re_match LINK_PATTERN link \<noteq> None] = links"
    using assms by (simp add: re_match_LINK_PATTERN_ex filter_id_conv)
  have s: "set (clean_links E links) = set links"
    unfolding clean_links_def f by (rule set_set_to_list)
  have d: "distinct (clean_links E links)"
    by (simp add: clean_links_def distinct_set_to_list)
  have l: "length (clean_links E links) = card (set links)"
    using distinct_card[OF d] s by simp
  have "length (clean_links E links) = length links" if "distinct links"
    using l distinct_card[OF that] by simp
  then show ?thesis using s d l by blast
qed

theorem clean_links_distinct_valid_witness:
  "distinct [''/a'', ''/a/'', ''/a.html''] \<and>
   length (clean_links offline_site [''/a'', ''/a/'', ''/a.html'']) = 3 \<and>
   set (clean_links offline_site [''/a'', ''/a/'', ''/a.html'']) =
     {''/a'', ''/a/'', ''/a.html''}"
proof -
  have d: "distinct [''/a'', ''/a/'', ''/a.html'']" by simp
  have v: "\<forall>l\<in>set [''/a'', ''/a/'', ''/a.html'']. l \<noteq> [] \<and> hd l = CHR ''/''" by simp
  show ?thesis using d clean_links_distinct_valid[OF v, of offline_site] by simp
qed

text \<open>
  C8 as stated fails: a list that names the same link twice is cleaned to a shorter
  list.
\<close>

theorem clean_links_duplicates_counterexample:
  "clean_links offline_site [''/a'', ''/a''] = [''/a''] \<and>
   length (clean_links offline_site [''/a'', ''/a'']) = 1 \<and>
   length [''/a'', ''/a''] = (2 :: nat)"
  by code_simp

subsection \<open>C9: construction accepts a string that contains a match\<close>



subsection \<open>C10: the seed under its trailing-slash spelling\<close>

text \<open>
  C10. Take a \<open>Mapper\<close> that construction accepted, with a non-negative
  \<open>max_depth\<close>, and a seed page with an anchor whose \<open>href\<close> is \<open>/\<close>. The link
  resolves to the stored domain followed by \<open>/\<close>, which is another string than the
  stored domain, passes \<open>_is_valid_url\<close> and is not visited at the start. When
  \<open>map_web_site\<close> returns, that URL is a discovered link and an element of the
  result, and it has been fetched if \<open>max_depth\<close> is at least one.
\<close>

theorem root_slash_discovered:
  assumes init: "Mapper_init s md rl = Inr m" and md: "0 \<le> md"
    and href: "get_page E (domain m) = Inr page" "Some ''/'' \<in> set page"
    and ret: "map_web_site E m = (m', Inr xs)"
  shows "urljoin E (domain m) ''/'' = Inr (domain m @ ''/'') \<and>
         domain m @ ''/'' \<noteq> domain m \<and>
         is_valid_url E m (domain m @ ''/'') = Inr True \<and>
         domain m @ ''/'' |\<notin>| visited m \<and>
         domain m @ ''/'' |\<in>| all_links m' \<and>
         domain m @ ''/'' \<in> set xs \<and>
         (1 \<le> md \<longrightarrow> domain m @ ''/'' |\<in>| visited m')"
proof -
  let ?a = "domain m @ ''/''"
  from Mapper_init_domain_shape[OF init] obtain sch body where
    d: "domain m = sch @ ''://'' @ body" and sch: "sch = ''http'' \<or> sch = ''https''" and
    ne: "body \<noteq> []" and hc: "\<forall>c\<in>set body. host_char c" and
    fresh: "max_depth m = md" "visited m = {||}" "all_links m = {||}"
    by blast
  have j: "urljoin E (domain m) ''/'' = Inr ?a"
    using urljoin_domain_slash[OF sch hc ne, of E] d by simp
  have v: "is_valid_url E m ?a = Inr True"
    using is_valid_url_domain_slash[OF sch hc d, of E] d by simp
  have c: "crawl E m (domain m) 0 = (m', None)"
    and xs: "xs = sorted_list_of_fset (all_links m')"
    using ret by (auto simp: map_web_site_def split: prod.splits option.splits)
  let ?m1 = "m\<lparr>visited := finsert (domain m) (visited m)\<rparr>"
  let ?cl = "clean_links E (find_links page)"
  have l: "crawls_links E ?m1 ?cl 0 (m', None)"
    using crawl_result[OF c]
  proof (cases rule: crawls.cases)
    case skip
    then show ?thesis using md fresh by simp
  next
    case (enter html)
    from enter(4) href(1) have "html = page" by simp
    then show ?thesis using enter(5) by simp
  qed
  have "''/'' \<in> set ?cl" using href(2) by (simp add: set_clean_links set_find_links)
  from crawls_links_processed(2)[OF l _ this, of ?a] j v
  have p: "?a |\<in>| visited m' \<or> ?a |\<in>| all_links m'"
    "1 \<le> md \<longrightarrow> ?a |\<in>| visited m'"
    using is_valid_url_domain_cong[of ?m1 m E ?a] fresh by simp_all
  have "visited m' |\<subseteq>| finsert (domain m) (all_links m')"
    using crawls_visited_discovered(2)[OF l] fresh by simp
  then have "?a |\<in>| all_links m'" using p(1) by auto
  then show ?thesis using j v p(2) fresh xs by simp
qed

theorem root_slash_discovered_witness:
  "Mapper_init ''http://host.com'' 1 (1 / 2) = Inr example_mapper \<and>
   get_page slash_site (domain example_mapper) = Inr [Some ''/''] \<and>
   Some ''/'' \<in> set [Some ''/''] \<and>
   map_web_site slash_site example_mapper =
     (\<lparr>domain = ''http://host.com'', max_depth = 1, rate_limit = 1 / 2,
       visited = {|''http://host.com'', ''http://host.com/''|},
       all_links = {|''http://host.com/''|}\<rparr>,
      Inr [''http://host.com/'']) \<and>
   urljoin slash_site ''http://host.com'' ''/'' = Inr ''http://host.com/'' \<and>
   is_valid_url slash_site example_mapper ''http://host.com/'' = Inr True \<and>
   ''http://host.com/'' |\<in>| {|''http://host.com/''|} \<and>
   ''http://host.com/'' |\<in>| {|''http://host.com'', ''http://host.com/''|}"
proof -
  have h: "get_page slash_site (domain example_mapper) = Inr [Some ''/'']"
    by (simp add: get_page_def slash_site_def example_mapper_def)
  have h2: "Some ''/'' \<in> set [Some ''/'']" by simp
  have d: "domain example_mapper = ''http://host.com''" by (simp add: example_mapper_def)
  have z: "(0 :: int) \<le> 1" by simp
  from root_slash_discovered[OF Mapper_init_example z h h2 map_web_site_slash]
  show ?thesis using Mapper_init_example h map_web_site_slash d by simp
qed

end
